theory Spec2Isabelle
  imports Complex_Main "HOL-Library.Multiset"
begin

section \<open>Data model\<close>

text \<open>
  The exceptions the loader can raise. \<open>OverflowError\<close> is what the conversion of a
  Python integer to a variable declared \<open>cdef int\<close> raises when the value does not
  fit; \<open>TypeError\<close> is what the conversion of a non-integer to \<open>Py_ssize_t\<close>
  raises.
\<close>

datatype error = ValueError | IndexError | OverflowError | KeyError | TypeError | ZeroDivisionError

text \<open>
  A row of one of the three tables, in the column order of \<open>ADJ_QUERY_TEMPLATE\<close>:
  \<open>(sid, ratio, effective_date)\<close>. The ratio is a \<open>float64_t\<close>; it is modelled by the
  real number it denotes, and \<open>1.0 / ratio\<close> by the division of the reals.
\<close>

type_synonym raw_record = "int \<times> real \<times> int"

text \<open>The adjustment store: the rows of its three tables, in table order.\<close>

record adjustments_db =
  splits :: "raw_record list"
  mergers :: "raw_record list"
  dividends :: "raw_record list"

datatype tablename = Splits | Mergers | Dividends

fun table_rows :: "adjustments_db \<Rightarrow> tablename \<Rightarrow> raw_record list" where
  "table_rows db Splits = splits db"
| "table_rows db Mergers = mergers db"
| "table_rows db Dividends = dividends db"

text \<open>
  \<open>Float64Multiply\<close> is declared in \<open>zipline.lib.adjustment\<close>, which is not among
  the sources; the loader only constructs it. The record has one field for each of the
  five positional arguments of the constructor, in their order:
  \<open>(first_row, last_row, first_col, last_col, value)\<close>, the corners of the rectangle
  and the factor. Every call of the loader is
  \<open>Float64Multiply(0, date_loc, asset_ix, asset_ix, value)\<close>.
\<close>

record Float64Multiply =
  first_row :: nat
  last_row :: nat
  first_col :: nat
  last_col :: nat
  val :: real

type_synonym schedule = "nat \<rightharpoonup> Float64Multiply list"

section \<open>Queries\<close>

text \<open>
  \<open>_SID_QUERY_TEMPLATE\<close>: the distinct sids of the rows of a table whose effective date
  lies in the closed range.
\<close>

definition get_sids_from_table :: "adjustments_db \<Rightarrow> tablename \<Rightarrow> int \<Rightarrow> int \<Rightarrow> int set" where
  "get_sids_from_table db tablename start_date end_date =
     set (map fst (filter (\<lambda>(sid, ratio, eff). start_date \<le> eff \<and> eff \<le> end_date)
                          (table_rows db tablename)))"

definition get_split_sids :: "adjustments_db \<Rightarrow> int \<Rightarrow> int \<Rightarrow> int set" where
  "get_split_sids db start_date end_date = get_sids_from_table db Splits start_date end_date"

definition get_merger_sids :: "adjustments_db \<Rightarrow> int \<Rightarrow> int \<Rightarrow> int set" where
  "get_merger_sids db start_date end_date = get_sids_from_table db Mergers start_date end_date"

definition get_dividend_sids :: "adjustments_db \<Rightarrow> int \<Rightarrow> int \<Rightarrow> int set" where
  "get_dividend_sids db start_date end_date = get_sids_from_table db Dividends start_date end_date"

text \<open>
  \<open>ADJ_QUERY_TEMPLATE\<close> executed with the bound sids \<open>t\<close>: the rows of the table whose
  sid is one of \<open>t\<close> and whose effective date lies in the closed range. The statement
  has no \<open>ORDER BY\<close>, so the store chooses the order of the rows it returns; the model
  returns them in table order. Where a result below compares sequences of rows, the table
  holds its rows by ascending sid, so that a store answering in sid order (through an
  index on \<open>sid\<close>) returns the same sequence.
\<close>

definition adj_query :: "raw_record list \<Rightarrow> int list \<Rightarrow> int \<Rightarrow> int \<Rightarrow> raw_record list" where
  "adj_query rows t start_date end_date =
     filter (\<lambda>(sid, ratio, eff). sid \<in> set t \<and> start_date \<le> eff \<and> eff \<le> end_date) rows"

text \<open>
  One \<open>while ..._to_query:\<close> loop of \<open>_adjustments\<close> (the source writes it three times,
  once per table). \<open>max_in\<close> is \<open>SQLITE_MAX_IN_STATEMENT\<close>, a constant imported from
  \<open>zipline.assets.asset_writer\<close>. \<open>issued\<close> records the parameter list of every
  \<open>c.execute\<close>. With \<open>max_in = 0\<close> and a non-empty list the loop never ends, which is
  the value \<open>None\<close>.
\<close>

partial_function (option) fetch_loop ::
  "nat \<Rightarrow> raw_record list \<Rightarrow> int \<Rightarrow> int \<Rightarrow> int list \<Rightarrow> raw_record list \<Rightarrow> int list list
     \<Rightarrow> (raw_record list \<times> int list list) option" where
  "fetch_loop max_in rows start_date end_date to_query results issued =
     (if to_query = [] then Some (results, issued)
      else
        let query_len = min (length to_query) max_in;
            query_assets = take query_len to_query
        in fetch_loop max_in rows start_date end_date (drop query_len to_query)
             (results @ adj_query rows query_assets start_date end_date)
             (issued @ [query_assets]))"

declare fetch_loop.simps [code]

definition adjustments ::
  "nat \<Rightarrow> adjustments_db \<Rightarrow> int set \<Rightarrow> int set \<Rightarrow> int set \<Rightarrow> int \<Rightarrow> int \<Rightarrow> int list
     \<Rightarrow> ((raw_record list \<times> raw_record list \<times> raw_record list) \<times> int list list) option" where
  "adjustments max_in db split_sids merger_sids dividends_sids start_date end_date assets =
     (case fetch_loop max_in (splits db) start_date end_date
             (filter (\<lambda>a. a \<in> split_sids) assets) [] [] of
        None \<Rightarrow> None
      | Some (splits_results, issued1) \<Rightarrow>
     (case fetch_loop max_in (mergers db) start_date end_date
             (filter (\<lambda>a. a \<in> merger_sids) assets) [] issued1 of
        None \<Rightarrow> None
      | Some (mergers_results, issued2) \<Rightarrow>
     (case fetch_loop max_in (dividends db) start_date end_date
             (filter (\<lambda>a. a \<in> dividends_sids) assets) [] issued2 of
        None \<Rightarrow> None
      | Some (dividends_results, issued3) \<Rightarrow>
          Some ((splits_results, mergers_results, dividends_results), issued3))))"

text \<open>
  The refinement target of the chunked loop: one query binding the whole list.
\<close>

definition unchunked_fetch :: "raw_record list \<Rightarrow> int \<Rightarrow> int \<Rightarrow> int list \<Rightarrow> raw_record list" where
  "unchunked_fetch rows start_date end_date to_query =
     adj_query rows to_query start_date end_date"

section \<open>Index lookups\<close>

text \<open>Conversion of a Python integer to a C \<open>int\<close> (32 bits).\<close>

definition c_int :: "int \<Rightarrow> error + int" where
  "c_int x = (if - (2 ^ 31) \<le> x \<and> x < 2 ^ 31 then Inr x else Inl OverflowError)"

text \<open>
  \<open>ndarray.searchsorted(dt, side='right')\<close>: numpy's binary search, which moves the
  lower bound past every probed element that is at most the key.
\<close>

function bisect_right :: "int list \<Rightarrow> int \<Rightarrow> nat \<Rightarrow> nat \<Rightarrow> nat" where
  "bisect_right a key lo hi =
     (if lo < hi then
        (let mid = lo + (hi - lo) div 2
         in if a ! mid \<le> key then bisect_right a key (mid + 1) hi
            else bisect_right a key lo mid)
      else lo)"
  by pat_completeness auto
termination
  by (relation "measure (\<lambda>(a, key, lo, hi). hi - lo)") auto

declare bisect_right.simps [simp del]

definition searchsorted_right :: "int list \<Rightarrow> int \<Rightarrow> nat" where
  "searchsorted_right a key = bisect_right a key 0 (length a)"

text \<open>\<open>_lookup_dt\<close>; the dictionary it may update is returned with the row.\<close>

definition lookup_dt :: "(int \<rightharpoonup> nat) \<Rightarrow> int \<Rightarrow> int list \<Rightarrow> nat \<times> (int \<rightharpoonup> nat)" where
  "lookup_dt dt_cache dt fallback =
     (case dt_cache dt of
        None \<Rightarrow> (let r = searchsorted_right fallback dt in (r, dt_cache(dt \<mapsto> r)))
      | Some r \<Rightarrow> (r, dt_cache))"

text \<open>
  The loop \<open>for i, dt in enumerate(_dates_seconds): date_ixs[dt] = i\<close>; \<open>dt\<close> is a
  \<open>cdef int\<close>.
\<close>

fun prepopulate :: "(int \<rightharpoonup> nat) \<Rightarrow> nat \<Rightarrow> int list \<Rightarrow> error + (int \<rightharpoonup> nat)" where
  "prepopulate date_ixs i [] = Inr date_ixs"
| "prepopulate date_ixs i (d # ds) =
     (case c_int d of
        Inl e \<Rightarrow> Inl e
      | Inr dt \<Rightarrow> prepopulate (date_ixs(dt \<mapsto> i)) (Suc i) ds)"

text \<open>
  \<open>Int64Index.get_loc\<close> followed by the conversion to \<open>Py_ssize_t\<close>: an absent label
  raises \<open>KeyError\<close>; a label that occurs once gives its position; a label that occurs
  several times gives a slice or a mask, which is no integer.
\<close>

definition get_loc :: "int list \<Rightarrow> int \<Rightarrow> error + nat" where
  "get_loc assets sid =
     (case filter (\<lambda>i. assets ! i = sid) [0..<length assets] of
        [] \<Rightarrow> Inl KeyError
      | [i] \<Rightarrow> Inr i
      | _ \<Rightarrow> Inl TypeError)"

text \<open>The cached column lookup of both record loops.\<close>

definition lookup_asset :: "(int \<rightharpoonup> nat) \<Rightarrow> int list \<Rightarrow> int \<Rightarrow> error + nat \<times> (int \<rightharpoonup> nat)" where
  "lookup_asset asset_ixs assets sid =
     (case asset_ixs sid of
        Some ix \<Rightarrow> Inr (ix, asset_ixs)
      | None \<Rightarrow>
          (case get_loc assets sid of
             Inl e \<Rightarrow> Inl e
           | Inr ix \<Rightarrow> Inr (ix, asset_ixs(sid \<mapsto> ix))))"

section \<open>Assembling the schedules\<close>

text \<open>\<open>adjustments.setdefault(date_loc, []).append(adj)\<close>.\<close>

definition append_adj :: "schedule \<Rightarrow> nat \<Rightarrow> Float64Multiply \<Rightarrow> schedule" where
  "append_adj sched date_loc adj =
     sched(date_loc \<mapsto> (case sched date_loc of None \<Rightarrow> [] | Some l \<Rightarrow> l) @ [adj])"

text \<open>The four dictionaries the two record loops update.\<close>

record load_state =
  price_adjustments :: schedule
  volume_adjustments :: schedule
  asset_ixs :: "int \<rightharpoonup> nat"
  date_ixs :: "int \<rightharpoonup> nat"

text \<open>
  The body of \<open>for sid, ratio, eff_date in splits\<close>. \<open>eff_date\<close> is a \<open>cdef int\<close>;
  \<open>1.0 / ratio\<close> on a C double raises \<open>ZeroDivisionError\<close> when the ratio is zero.
\<close>

definition split_step ::
  "int list \<Rightarrow> int list \<Rightarrow> int \<Rightarrow> bool \<Rightarrow> bool \<Rightarrow> load_state \<Rightarrow> raw_record \<Rightarrow> error + load_state" where
  "split_step dates_seconds assets start_date should_include_price_adjustments
       should_include_volume_adjustments st rec =
     (case rec of (sid, ratio, eff) \<Rightarrow>
      case c_int eff of
        Inl e \<Rightarrow> Inl e
      | Inr eff_date \<Rightarrow>
          if eff_date < start_date then Inr st
          else
            (case lookup_dt (date_ixs st) eff_date dates_seconds of (date_loc, dixs) \<Rightarrow>
             case lookup_asset (asset_ixs st) assets sid of
               Inl e \<Rightarrow> Inl e
             | Inr (asset_ix, aixs) \<Rightarrow>
                 let st1 = st\<lparr>date_ixs := dixs, asset_ixs := aixs\<rparr>;
                     st2 = (if should_include_price_adjustments
                            then st1\<lparr>price_adjustments :=
                                   append_adj (price_adjustments st1) date_loc
                                     \<lparr>first_row = 0, last_row = date_loc, first_col = asset_ix,
                                      last_col = asset_ix, val = ratio\<rparr>\<rparr>
                            else st1)
                 in if should_include_volume_adjustments
                    then (if ratio = 0 then Inl ZeroDivisionError
                          else Inr (st2\<lparr>volume_adjustments :=
                                  append_adj (volume_adjustments st2) date_loc
                                    \<lparr>first_row = 0, last_row = date_loc, first_col = asset_ix,
                                     last_col = asset_ix, val = 1 / ratio\<rparr>\<rparr>))
                    else Inr st2))"

text \<open>The body of \<open>for sid, ratio, eff_date in chain(mergers, dividends)\<close>.\<close>

definition price_step ::
  "int list \<Rightarrow> int list \<Rightarrow> int \<Rightarrow> load_state \<Rightarrow> raw_record \<Rightarrow> error + load_state" where
  "price_step dates_seconds assets start_date st rec =
     (case rec of (sid, ratio, eff) \<Rightarrow>
      case c_int eff of
        Inl e \<Rightarrow> Inl e
      | Inr eff_date \<Rightarrow>
          if eff_date < start_date then Inr st
          else
            (case lookup_dt (date_ixs st) eff_date dates_seconds of (date_loc, dixs) \<Rightarrow>
             case lookup_asset (asset_ixs st) assets sid of
               Inl e \<Rightarrow> Inl e
             | Inr (asset_ix, aixs) \<Rightarrow>
                 Inr (st\<lparr>date_ixs := dixs, asset_ixs := aixs,
                         price_adjustments :=
                           append_adj (price_adjustments st) date_loc
                             \<lparr>first_row = 0, last_row = date_loc, first_col = asset_ix,
                              last_col = asset_ix, val = ratio\<rparr>\<rparr>)))"

text \<open>A \<open>for\<close> loop whose body may raise: the first exception ends it.\<close>

fun for_each :: "('s \<Rightarrow> 'a \<Rightarrow> error + 's) \<Rightarrow> 's \<Rightarrow> 'a list \<Rightarrow> error + 's" where
  "for_each body st [] = Inr st"
| "for_each body st (x # xs) =
     (case body st x of
        Inl e \<Rightarrow> Inl e
      | Inr st' \<Rightarrow> for_each body st' xs)"

text \<open>
  The part of \<open>load_adjustments_from_sqlite\<close> after the call of \<open>_adjustments\<close>: the
  cache pre-population, the two record loops and the result dictionary.
\<close>

definition assemble ::
  "int list \<Rightarrow> int list \<Rightarrow> int \<Rightarrow> bool \<Rightarrow> bool
     \<Rightarrow> raw_record list \<Rightarrow> raw_record list \<Rightarrow> raw_record list \<Rightarrow> error + (string \<rightharpoonup> schedule)" where
  "assemble dates assets start_date should_include_price_adjustments
       should_include_volume_adjustments splits_rs mergers_rs dividends_rs =
     (case prepopulate Map.empty 0 dates of
        Inl e \<Rightarrow> Inl e
      | Inr dixs \<Rightarrow>
     (case for_each (split_step dates assets start_date should_include_price_adjustments
                       should_include_volume_adjustments)
             \<lparr>price_adjustments = Map.empty, volume_adjustments = Map.empty,
              asset_ixs = Map.empty, date_ixs = dixs\<rparr> splits_rs of
        Inl e \<Rightarrow> Inl e
      | Inr st1 \<Rightarrow>
     (case for_each (price_step dates assets start_date) st1 (mergers_rs @ dividends_rs) of
        Inl e \<Rightarrow> Inl e
      | Inr st2 \<Rightarrow>
          let result1 = (if should_include_price_adjustments
                         then [''price'' \<mapsto> price_adjustments st2] else Map.empty);
              result2 = (if should_include_volume_adjustments
                         then result1(''volume'' \<mapsto> volume_adjustments st2) else result1)
          in Inr result2)))"

text \<open>
  \<open>load_adjustments_from_sqlite\<close>. The date axis is given in whole seconds since the
  epoch, so that \<open>start_date\<close> and \<open>end_date\<close> (both \<open>cdef int\<close>) are its first and
  last entries and \<open>_dates_seconds\<close> is the axis itself. The outer \<open>None\<close> is a fetch
  loop that does not end.
\<close>

definition load_adjustments_from_sqlite ::
  "nat \<Rightarrow> adjustments_db \<Rightarrow> int list \<Rightarrow> int list \<Rightarrow> bool \<Rightarrow> bool \<Rightarrow> bool \<Rightarrow> string
     \<Rightarrow> (error + (string \<rightharpoonup> schedule)) option" where
  "load_adjustments_from_sqlite max_in adjustments_db dates assets should_include_splits
       should_include_mergers should_include_dividends adjustment_type =
     (if \<not> (adjustment_type = ''price'' \<or> adjustment_type = ''volume'' \<or> adjustment_type = ''all'')
      then Some (Inl ValueError)
      else
        let should_include_price_adjustments =
              (adjustment_type = ''all'' \<or> adjustment_type = ''price'');
            should_include_volume_adjustments =
              (adjustment_type = ''all'' \<or> adjustment_type = ''volume'');
            should_include_mergers' =
              (if \<not> should_include_price_adjustments then False else should_include_mergers);
            should_include_dividends' =
              (if \<not> should_include_price_adjustments then False else should_include_dividends)
        in if dates = [] then Some (Inl IndexError)
           else
             (case c_int (hd dates) of
                Inl e \<Rightarrow> Some (Inl e)
              | Inr start_date \<Rightarrow>
             (case c_int (last dates) of
                Inl e \<Rightarrow> Some (Inl e)
              | Inr end_date \<Rightarrow>
                  let split_sids = (if should_include_splits
                                    then get_split_sids adjustments_db start_date end_date else {});
                      merger_sids = (if should_include_mergers'
                                     then get_merger_sids adjustments_db start_date end_date else {});
                      dividend_sids = (if should_include_dividends'
                                       then get_dividend_sids adjustments_db start_date end_date
                                       else {})
                  in (case adjustments max_in adjustments_db split_sids merger_sids dividend_sids
                             start_date end_date assets of
                        None \<Rightarrow> None
                      | Some ((splits_rs, mergers_rs, dividends_rs), issued) \<Rightarrow>
                          Some (assemble dates assets start_date should_include_price_adjustments
                                  should_include_volume_adjustments
                                  splits_rs mergers_rs dividends_rs)))))"

section \<open>What the claims compare the loader with\<close>

text \<open>
  The row the date lookup of one load over \<open>dates\<close> returns for \<open>eff\<close>, after the
  effective dates \<open>effs\<close> have been looked up earlier in the same load.
\<close>

definition row_for :: "int list \<Rightarrow> int list \<Rightarrow> int \<Rightarrow> error + nat" where
  "row_for dates effs eff =
     (case prepopulate Map.empty 0 dates of
        Inl e \<Rightarrow> Inl e
      | Inr dixs \<Rightarrow>
          Inr (fst (lookup_dt (foldl (\<lambda>c e. snd (lookup_dt c e dates)) dixs effs) eff dates)))"

text \<open>
  The row of the right-side search as the specification words it: the number of axis
  entries that are at most \<open>eff\<close>.
\<close>

definition count_le :: "int list \<Rightarrow> int \<Rightarrow> nat" where
  "count_le dates eff = length (filter (\<lambda>d. d \<le> eff) dates)"

text \<open>The number of axis entries strictly before \<open>eff\<close>.\<close>

definition count_less :: "int list \<Rightarrow> int \<Rightarrow> nat" where
  "count_less dates eff = length (filter (\<lambda>d. d < eff) dates)"

text \<open>The row and the column of a record in a load that raises nothing.\<close>

definition date_row :: "int list \<Rightarrow> int \<Rightarrow> nat" where
  "date_row dates eff = (case row_for dates [] eff of Inr r \<Rightarrow> r | Inl e \<Rightarrow> 0)"

definition asset_col :: "int list \<Rightarrow> int \<Rightarrow> nat" where
  "asset_col assets sid = (case get_loc assets sid of Inr ix \<Rightarrow> ix | Inl e \<Rightarrow> 0)"

text \<open>
  The corrections the records \<open>recs\<close> contribute to row \<open>row\<close>, in record order, with
  the value \<open>f ratio\<close>: one per record that is not before \<open>start_date\<close> and whose
  effective date resolves to that row.
\<close>

definition corrections_at ::
  "int list \<Rightarrow> int list \<Rightarrow> int \<Rightarrow> (real \<Rightarrow> real) \<Rightarrow> raw_record list \<Rightarrow> nat \<Rightarrow> Float64Multiply list" where
  "corrections_at dates assets start_date f recs row =
     map (\<lambda>(sid, ratio, eff).
            \<lparr>first_row = 0, last_row = row, first_col = asset_col assets sid,
             last_col = asset_col assets sid, val = f ratio\<rparr>)
         (filter (\<lambda>(sid, ratio, eff). start_date \<le> eff \<and> date_row dates eff = row) recs)"

text \<open>A dictionary entry exists once something was appended to it.\<close>

definition bucket :: "'a list \<Rightarrow> 'a list option" where
  "bucket xs = (if xs = [] then None else Some xs)"

text \<open>What \<open>result[key][row]\<close> holds when the load returned and both keys exist.\<close>

definition scheduled ::
  "(error + (string \<rightharpoonup> schedule)) option \<Rightarrow> string \<Rightarrow> nat \<Rightarrow> Float64Multiply list option" where
  "scheduled r key row =
     (case r of
        Some (Inr res) \<Rightarrow> (case res key of Some sched \<Rightarrow> sched row | None \<Rightarrow> None)
      | _ \<Rightarrow> None)"

text \<open>The rows of a table that the closed date range of a request selects.\<close>

definition in_range :: "int \<Rightarrow> int \<Rightarrow> raw_record list \<Rightarrow> raw_record list" where
  "in_range start_date end_date rows =
     filter (\<lambda>(sid, ratio, eff). start_date \<le> eff \<and> eff \<le> end_date) rows"

text \<open>
  The records of a table that a load over the axis \<open>assets\<close> and the closed date range
  fetches: the rows of the range whose sid is on the asset axis, in table order.
\<close>

definition fetched :: "int list \<Rightarrow> int \<Rightarrow> int \<Rightarrow> raw_record list \<Rightarrow> raw_record list" where
  "fetched assets start_date end_date rows =
     filter (\<lambda>(sid, ratio, eff). sid \<in> set assets) (in_range start_date end_date rows)"

text \<open>The concrete scenario of the specification: four sessions, one asset, one split.\<close>

definition scenario_dates :: "int list" where
  "scenario_dates = [0, 86400, 172800, 259200]"

definition scenario_assets :: "int list" where
  "scenario_assets = [101]"

definition scenario_db :: adjustments_db where
  "scenario_db = \<lparr>splits = [(101, 2, 86400)], mergers = [], dividends = []\<rparr>"

text \<open>
  The second scenario of the specification: the same axes and one dividend
  \<open>(101, 0.98, 172800)\<close>.
\<close>

definition scenario_dividend_db :: adjustments_db where
  "scenario_dividend_db = \<lparr>splits = [], mergers = [], dividends = [(101, 98 / 100, 172800)]\<rparr>"

text \<open>
  The store of the first scenario with two more splits of the same asset, one effective
  a day before the first axis date and one a day after the last.
\<close>

definition scenario_wider_db :: adjustments_db where
  "scenario_wider_db =
     \<lparr>splits = [(101, 3, - 86400), (101, 2, 86400), (101, 5, 345600)],
      mergers = [], dividends = []\<rparr>"

text \<open>The store of the first scenario with the ratio of its split set to zero.\<close>

definition scenario_zero_db :: adjustments_db where
  "scenario_zero_db = \<lparr>splits = [(101, 0, 86400)], mergers = [], dividends = []\<rparr>"

text \<open>
  The store of the first scenario with a merger of the same asset on the day of the split
  and a dividend a day later.
\<close>

definition scenario_mixed_db :: adjustments_db where
  "scenario_mixed_db =
     \<lparr>splits = [(101, 2, 86400)], mergers = [(101, 1 / 2, 86400)],
      dividends = [(101, 98 / 100, 172800)]\<rparr>"

text \<open>The dictionary the load returns for that store with the adjustment type \<open>all\<close>.\<close>

definition scenario_mixed_result :: "string \<rightharpoonup> schedule" where
  "scenario_mixed_result =
     [''price'' \<mapsto>
        [1 \<mapsto> [\<lparr>first_row = 0, last_row = 1, first_col = 0, last_col = 0, val = 2\<rparr>,
               \<lparr>first_row = 0, last_row = 1, first_col = 0, last_col = 0, val = 1 / 2\<rparr>],
         2 \<mapsto> [\<lparr>first_row = 0, last_row = 2, first_col = 0, last_col = 0, val = 98 / 100\<rparr>]],
      ''volume'' \<mapsto>
        [1 \<mapsto> [\<lparr>first_row = 0, last_row = 1, first_col = 0, last_col = 0, val = 1 / 2\<rparr>]]]"

text \<open>The dictionary the load returns in the scenario.\<close>

definition scenario_result :: "string \<rightharpoonup> schedule" where
  "scenario_result =
     [''price'' \<mapsto> [1 \<mapsto> [\<lparr>first_row = 0, last_row = 1, first_col = 0, last_col = 0, val = 2\<rparr>]],
      ''volume'' \<mapsto> [1 \<mapsto> [\<lparr>first_row = 0, last_row = 1, first_col = 0, last_col = 0,
                            val = 1 / 2\<rparr>]]]"

section \<open>The adjusted array window\<close>

text \<open>
  Modelled from the spec: the body of \<open>AdjustedArrayWindow\<close> is in
  \<open>_windowtemplate.pxi\<close>, which the float, datetime and bool specialisations include
  and which is not among the sources. The definitions below follow section 4.6 of the
  specification and its error taxonomy: the window state is the baseline buffer, the
  schedule, the cursor, the window length and the cached view with the cursor it was
  built for; \<open>mul\<close> is the multiplication of the element type.
\<close>

datatype window_error = OrderingError | LookupError

record 'e window =
  baseline :: "'e list list"
  corrections :: schedule
  cursor :: int
  window_length :: nat
  cached_view :: "('e list list \<times> int) option"

text \<open>
  Modelled from the spec: applying one correction multiplies every cell of its
  rectangle in place.
\<close>

definition mutate :: "(real \<Rightarrow> 'e \<Rightarrow> 'e) \<Rightarrow> 'e list list \<Rightarrow> Float64Multiply \<Rightarrow> 'e list list" where
  "mutate mul buf adj =
     map (\<lambda>(r, cells).
            if first_row adj \<le> r \<and> r \<le> last_row adj
            then map (\<lambda>(c, x). if first_col adj \<le> c \<and> c \<le> last_col adj then mul (val adj) x else x)
                     (zip [0..<length cells] cells)
            else cells)
         (zip [0..<length buf] buf)"

text \<open>
  Modelled from the spec: the corrections of every schedule key in
  \<open>(previous_cursor, row]\<close>, bucket by bucket.
\<close>

definition pending :: "schedule \<Rightarrow> int \<Rightarrow> int \<Rightarrow> Float64Multiply list" where
  "pending sched previous_cursor row =
     concat (map (\<lambda>k. case sched (nat k) of None \<Rightarrow> [] | Some l \<Rightarrow> l)
                 (filter (\<lambda>k. 0 \<le> k) [previous_cursor + 1..row]))"

text \<open>
  Modelled from the spec: apply the pending corrections to the baseline, slide the
  window to end at \<open>row\<close> and cache the view.
\<close>

definition materialize :: "(real \<Rightarrow> 'e \<Rightarrow> 'e) \<Rightarrow> 'e window \<Rightarrow> int \<Rightarrow> 'e list list \<times> 'e window" where
  "materialize mul w row =
     (let buf = foldl (mutate mul) (baseline w) (pending (corrections w) (cursor w) row);
          view = take (window_length w) (drop (nat (row - int (window_length w) + 1)) buf)
      in (view, w\<lparr>baseline := buf, cursor := row, cached_view := Some (view, row)\<rparr>))"

text \<open>
  Modelled from the spec: \<open>advance_to\<close> fails with \<open>OrderingError\<close> for a row before
  the cursor and with \<open>LookupError\<close> for a row outside the valid bounds, returns the
  cached view when it was built for \<open>row\<close>, and materialises the window otherwise.
\<close>

definition advance_to ::
  "(real \<Rightarrow> 'e \<Rightarrow> 'e) \<Rightarrow> 'e window \<Rightarrow> int \<Rightarrow> window_error + 'e list list \<times> 'e window" where
  "advance_to mul w row =
     (if row < cursor w then Inl OrderingError
      else if row - int (window_length w) + 1 < 0 \<or> int (length (baseline w)) \<le> row
      then Inl LookupError
      else
        (case cached_view w of
           None \<Rightarrow> Inr (materialize mul w row)
         | Some (view, built_for) \<Rightarrow>
             if built_for = row then Inr (view, w) else Inr (materialize mul w row)))"

text \<open>A float window over three sessions of one asset, with one correction due at row 2.\<close>

definition example_window :: "real window" where
  "example_window =
     \<lparr>baseline = [[1], [2], [3]],
      corrections = [2 \<mapsto> [\<lparr>first_row = 0, last_row = 2, first_col = 0, last_col = 0, val = 2\<rparr>]],
      cursor = 1, window_length = 2, cached_view = None\<rparr>"

section \<open>Invariants of the record loops\<close>

text \<open>
  A date cache of a load whose pre-populated cache is \<open>c0\<close>: it has lost no key of
  \<open>c0\<close>, and every entry is the row the first lookup of its key returns.
\<close>

definition dt_cache_ok :: "(int \<rightharpoonup> nat) \<Rightarrow> int list \<Rightarrow> (int \<rightharpoonup> nat) \<Rightarrow> bool" where
  "dt_cache_ok c0 dates c \<longleftrightarrow>
     (\<forall>k. (c k = None \<longrightarrow> c0 k = None) \<and> (\<forall>r. c k = Some r \<longrightarrow> r = fst (lookup_dt c0 k dates)))"

text \<open>An asset cache holds only positions that \<open>get_loc\<close> returned.\<close>

definition asset_cache_ok :: "int list \<Rightarrow> (int \<rightharpoonup> nat) \<Rightarrow> bool" where
  "asset_cache_ok assets c \<longleftrightarrow> (\<forall>sid ix. c sid = Some ix \<longrightarrow> get_loc assets sid = Inr ix)"

text \<open>A dictionary entry after the corrections \<open>xs\<close> were appended to it one by one.\<close>

definition extend_bucket :: "'a list option \<Rightarrow> 'a list \<Rightarrow> 'a list option" where
  "extend_bucket b xs = (if xs = [] then b else Some ((case b of None \<Rightarrow> [] | Some l \<Rightarrow> l) @ xs))"

section \<open>The window is forward-only and caches its view\<close>

lemma length_mutate: "length (mutate mul buf adj) = length buf"
  by (simp add: mutate_def)

lemma length_foldl_mutate: "length (foldl (mutate mul) buf adjs) = length buf"
  by (induction adjs arbitrary: buf) (simp_all add: length_mutate)

lemma advance_to_materialize_again:
  assumes "\<not> row < cursor w"
    and "\<not> (row - int (window_length w) + 1 < 0 \<or> int (length (baseline w)) \<le> row)"
  shows "advance_to mul (snd (materialize mul w row)) row = Inr (materialize mul w row)"
  using assms by (simp add: advance_to_def materialize_def Let_def length_foldl_mutate)

text \<open>
  Claim C9. In every window state, \<open>advance_to\<close> with a row strictly before the cursor
  fails with \<open>OrderingError\<close>; and when a call returns a view and a state, the same call
  on that state returns the same view and leaves the state, hence the buffer, as it is.
\<close>

theorem advance_to_monotonic:
  "(row < cursor w \<longrightarrow> advance_to mul w row = Inl OrderingError) \<and>
   (advance_to mul w row = Inr (view, w') \<longrightarrow> advance_to mul w' row = Inr (view, w'))"
proof (intro conjI impI)
  assume "row < cursor w"
  then show "advance_to mul w row = Inl OrderingError"
    by (simp add: advance_to_def)
next
  assume ok: "advance_to mul w row = Inr (view, w')"
  have ord: "\<not> row < cursor w"
    using ok by (auto simp: advance_to_def split: if_splits)
  have bnd: "\<not> (row - int (window_length w) + 1 < 0 \<or> int (length (baseline w)) \<le> row)"
    using ok by (auto simp: advance_to_def split: if_splits)
  show "advance_to mul w' row = Inr (view, w')"
  proof (cases "\<exists>v. cached_view w = Some (v, row)")
    case True
    then obtain v where c: "cached_view w = Some (v, row)"
      by blast
    with ok ord bnd have "view = v" "w' = w"
      by (auto simp: advance_to_def)
    with c ord bnd show ?thesis
      by (simp add: advance_to_def)
  next
    case False
    with ok ord bnd have m: "materialize mul w row = (view, w')"
      by (auto simp: advance_to_def split: option.splits if_splits)
    from advance_to_materialize_again [OF ord bnd, of mul] m show ?thesis
      by simp
  qed
qed

theorem advance_to_monotonic_witness:
  "0 < cursor example_window \<and>
   advance_to (*) example_window 0 = Inl OrderingError \<and>
   advance_to (*) example_window 2 =
     Inr ([[4], [6]], example_window\<lparr>baseline := [[2], [4], [6]], cursor := 2,
                                      cached_view := Some ([[4], [6]], 2)\<rparr>) \<and>
   advance_to (*) (example_window\<lparr>baseline := [[2], [4], [6]], cursor := 2,
                                     cached_view := Some ([[4], [6]], 2)\<rparr>) 2 =
     Inr ([[4], [6]], example_window\<lparr>baseline := [[2], [4], [6]], cursor := 2,
                                      cached_view := Some ([[4], [6]], 2)\<rparr>)"
proof -
  have c: "0 < cursor example_window"
    by (simp add: example_window_def)
  have h: "advance_to (*) example_window 2 =
     Inr ([[4], [6]], example_window\<lparr>baseline := [[2], [4], [6]], cursor := 2,
                                      cached_view := Some ([[4], [6]], 2)\<rparr>)"
    by (simp add: example_window_def advance_to_def materialize_def pending_def mutate_def
        Let_def upto.simps upt_rec)
  from advance_to_monotonic [of 0 example_window "(*)"] c
    advance_to_monotonic [of 2 example_window "(*)", THEN conjunct2, rule_format, OF h] h
  show ?thesis
    by blast
qed

section \<open>The binary search\<close>

lemma bisect_right_bounds:
  "lo \<le> hi \<Longrightarrow> lo \<le> bisect_right a key lo hi \<and> bisect_right a key lo hi \<le> hi"
proof (induction a key lo hi rule: bisect_right.induct)
  case (1 a key lo hi)
  show ?case
  proof (cases "lo < hi")
    case False
    with "1.prems" show ?thesis by (subst (1 2) bisect_right.simps) simp
  next
    case True
    define mid where "mid = lo + (hi - lo) div 2"
    have m: "lo \<le> mid" "mid < hi" using True by (simp_all add: mid_def)
    show ?thesis
    proof (cases "a ! mid \<le> key")
      case le: True
      from "1.IH"(1) [OF True mid_def le] m
      have "mid + 1 \<le> bisect_right a key (mid + 1) hi \<and> bisect_right a key (mid + 1) hi \<le> hi"
        by simp
      moreover have "bisect_right a key lo hi = bisect_right a key (mid + 1) hi"
        using True le by (subst bisect_right.simps) (simp add: mid_def Let_def)
      ultimately show ?thesis using m by simp
    next
      case gt: False
      from "1.IH"(2) [OF True mid_def gt] m
      have "lo \<le> bisect_right a key lo mid \<and> bisect_right a key lo mid \<le> mid"
        by simp
      moreover have "bisect_right a key lo hi = bisect_right a key lo mid"
        using True gt by (subst bisect_right.simps) (simp add: mid_def Let_def)
      ultimately show ?thesis using m by simp
    qed
  qed
qed

text \<open>On any array: the search reaches \<open>hi\<close> only past an element that is at most the key.\<close>

lemma bisect_right_top:
  "lo < hi \<Longrightarrow> bisect_right a key lo hi = hi \<Longrightarrow> a ! (hi - 1) \<le> key"
proof (induction a key lo hi rule: bisect_right.induct)
  case (1 a key lo hi)
  define mid where "mid = lo + (hi - lo) div 2"
  have m: "lo \<le> mid" "mid < hi" using "1.prems"(1) by (simp_all add: mid_def)
  show ?case
  proof (cases "a ! mid \<le> key")
    case le: True
    have eq: "bisect_right a key lo hi = bisect_right a key (mid + 1) hi"
      using "1.prems"(1) le by (subst bisect_right.simps) (simp add: mid_def Let_def)
    show ?thesis
    proof (cases "mid + 1 < hi")
      case True
      from "1.IH"(1) [OF "1.prems"(1) mid_def le True] eq "1.prems"(2) show ?thesis by simp
    next
      case False
      with m have "mid = hi - 1" by simp
      with le show ?thesis by simp
    qed
  next
    case gt: False
    have eq: "bisect_right a key lo hi = bisect_right a key lo mid"
      using "1.prems"(1) gt by (subst bisect_right.simps) (simp add: mid_def Let_def)
    from bisect_right_bounds [of lo mid a key] m have "bisect_right a key lo mid \<le> mid" by simp
    with eq "1.prems"(2) m show ?thesis by simp
  qed
qed

text \<open>On a sorted array: the search returns the boundary between the elements that are
  at most the key and the elements beyond it.\<close>

lemma bisect_right_sorted:
  assumes "sorted a" "lo \<le> hi" "hi \<le> length a"
    and "\<forall>i<lo. a ! i \<le> key" and "\<forall>i. hi \<le> i \<and> i < length a \<longrightarrow> key < a ! i"
  shows "(\<forall>i < bisect_right a key lo hi. a ! i \<le> key) \<and>
         (\<forall>i. bisect_right a key lo hi \<le> i \<and> i < length a \<longrightarrow> key < a ! i)"
  using assms
proof (induction a key lo hi rule: bisect_right.induct)
  case (1 a key lo hi)
  show ?case
  proof (cases "lo < hi")
    case False
    then have "bisect_right a key lo hi = lo" by (subst bisect_right.simps) simp
    moreover from False "1.prems"(2) have "lo = hi" by simp
    ultimately show ?thesis using "1.prems"(4,5) by simp
  next
    case True
    define mid where "mid = lo + (hi - lo) div 2"
    have m: "lo \<le> mid" "mid < hi" using True by (simp_all add: mid_def)
    show ?thesis
    proof (cases "a ! mid \<le> key")
      case le: True
      have eq: "bisect_right a key lo hi = bisect_right a key (mid + 1) hi"
        using True le by (subst bisect_right.simps) (simp add: mid_def Let_def)
      have below: "\<forall>i<mid + 1. a ! i \<le> key"
      proof (intro allI impI)
        fix i assume "i < mid + 1"
        then have "i \<le> mid" by simp
        with \<open>sorted a\<close> m "1.prems"(3) have "a ! i \<le> a ! mid"
          by (auto intro: sorted_nth_mono)
        with le show "a ! i \<le> key" by simp
      qed
      from "1.IH"(1) [OF True mid_def le "1.prems"(1) _ "1.prems"(3) below "1.prems"(5)] m eq
      show ?thesis by simp
    next
      case gt: False
      have eq: "bisect_right a key lo hi = bisect_right a key lo mid"
        using True gt by (subst bisect_right.simps) (simp add: mid_def Let_def)
      have above: "\<forall>i. mid \<le> i \<and> i < length a \<longrightarrow> key < a ! i"
      proof (intro allI impI)
        fix i assume "mid \<le> i \<and> i < length a"
        with \<open>sorted a\<close> have "a ! mid \<le> a ! i"
          by (auto intro: sorted_nth_mono)
        with gt show "key < a ! i" by simp
      qed
      from m "1.prems"(3) have "mid \<le> length a" by simp
      from "1.IH"(2) [OF True mid_def gt "1.prems"(1) m(1) this "1.prems"(4) above] eq
      show ?thesis by simp
    qed
  qed
qed

lemma boundary_count:
  assumes "r \<le> length a" "\<forall>i<r. P (a ! i)" "\<forall>i. r \<le> i \<and> i < length a \<longrightarrow> \<not> P (a ! i)"
  shows "length (filter P a) = r"
proof -
  have "filter P (take r a) = take r a"
    using assms(1,2) by (auto simp: filter_id_conv in_set_conv_nth)
  moreover have "filter P (drop r a) = []"
    using assms(3) by (auto simp: filter_empty_conv in_set_conv_nth)
  moreover have "filter P a = filter P (take r a) @ filter P (drop r a)"
    by (metis append_take_drop_id filter_append)
  ultimately show ?thesis using assms(1) by simp
qed

lemma searchsorted_right_sorted:
  assumes "sorted a"
  shows "searchsorted_right a key = count_le a key"
proof -
  let ?r = "bisect_right a key 0 (length a)"
  from bisect_right_sorted [OF assms, of 0 "length a" key]
  have b: "(\<forall>i < ?r. a ! i \<le> key) \<and> (\<forall>i. ?r \<le> i \<and> i < length a \<longrightarrow> key < a ! i)"
    by simp
  from bisect_right_bounds [of 0 "length a" a key] have "?r \<le> length a" by simp
  from boundary_count [OF this, of "\<lambda>d. d \<le> key"] b
  show ?thesis by (simp add: searchsorted_right_def count_le_def not_le)
qed

lemma searchsorted_right_le: "searchsorted_right a key \<le> length a"
  using bisect_right_bounds [of 0 "length a" a key] by (simp add: searchsorted_right_def)

lemma searchsorted_right_top:
  assumes "a \<noteq> []" "searchsorted_right a key = length a"
  shows "last a \<le> key"
  using bisect_right_top [of 0 "length a" a key] assms
  by (simp add: searchsorted_right_def last_conv_nth)

section \<open>The date cache\<close>

lemma c_int_Inr: "c_int x = Inr y \<Longrightarrow> y = x \<and> - (2 ^ 31) \<le> x \<and> x < 2 ^ 31"
  by (simp add: c_int_def split: if_splits)

lemma prepopulate_other:
  "prepopulate c i ds = Inr c' \<Longrightarrow> k \<notin> set ds \<Longrightarrow> c' k = c k"
proof (induction ds arbitrary: c i)
  case Nil
  then show ?case by simp
next
  case (Cons d ds)
  from Cons.prems(1) obtain dt where dt: "c_int d = Inr dt"
    and rest: "prepopulate (c(dt \<mapsto> i)) (Suc i) ds = Inr c'"
    by (auto split: sum.splits)
  from c_int_Inr [OF dt] have "dt = d" by simp
  with Cons.IH [OF rest] Cons.prems(2) show ?case by simp
qed

lemma prepopulate_member:
  "prepopulate c i ds = Inr c' \<Longrightarrow> k \<in> set ds \<Longrightarrow>
     \<exists>j<length ds. ds ! j = k \<and> c' k = Some (i + j)"
proof (induction ds arbitrary: c i)
  case Nil
  then show ?case by simp
next
  case (Cons d ds)
  from Cons.prems(1) obtain dt where dt: "c_int d = Inr dt"
    and rest: "prepopulate (c(dt \<mapsto> i)) (Suc i) ds = Inr c'"
    by (auto split: sum.splits)
  from c_int_Inr [OF dt] have d: "dt = d" by simp
  show ?case
  proof (cases "k \<in> set ds")
    case True
    from Cons.IH [OF rest True] obtain j where "j < length ds" "ds ! j = k" "c' k = Some (Suc i + j)"
      by blast
    then have "Suc j < length (d # ds) \<and> (d # ds) ! Suc j = k \<and> c' k = Some (i + Suc j)"
      by simp
    then show ?thesis by blast
  next
    case False
    with Cons.prems(2) have "k = d" by simp
    moreover from prepopulate_other [OF rest False] d \<open>k = d\<close> have "c' k = Some i" by simp
    ultimately have "0 < length (d # ds) \<and> (d # ds) ! 0 = k \<and> c' k = Some (i + 0)"
      by simp
    then show ?thesis by blast
  qed
qed

lemma prepopulate_in_range:
  "prepopulate c i ds = Inr c' \<Longrightarrow> d \<in> set ds \<Longrightarrow> c_int d = Inr d"
proof (induction ds arbitrary: c i)
  case Nil
  then show ?case by simp
next
  case (Cons x xs)
  from Cons.prems(1) obtain dt where dt: "c_int x = Inr dt"
    and rest: "prepopulate (c(dt \<mapsto> i)) (Suc i) xs = Inr c'"
    by (auto split: sum.splits)
  from c_int_Inr [OF dt] dt have "c_int x = Inr x" by simp
  with Cons.IH [OF rest] Cons.prems(2) show ?case by auto
qed

lemma prepopulate_succeeds:
  "\<forall>d\<in>set ds. c_int d = Inr d \<Longrightarrow> \<exists>c'. prepopulate c i ds = Inr c'"
  by (induction ds arbitrary: c i) simp_all

text \<open>The first lookup of a load: the position of a date on the axis, the binary search
  for any other date.\<close>

lemma first_lookup_on_axis:
  assumes "prepopulate Map.empty 0 dates = Inr c0" "k \<in> set dates"
  shows "fst (lookup_dt c0 k dates) < length dates \<and> dates ! fst (lookup_dt c0 k dates) = k"
proof -
  from prepopulate_member [OF assms] obtain j where "j < length dates" "dates ! j = k" "c0 k = Some j"
    by auto
  then show ?thesis by (simp add: lookup_dt_def)
qed

lemma first_lookup_off_axis:
  assumes "prepopulate Map.empty 0 dates = Inr c0" "k \<notin> set dates"
  shows "fst (lookup_dt c0 k dates) = searchsorted_right dates k"
  using prepopulate_other [OF assms] by (simp add: lookup_dt_def Let_def)

text \<open>Every later lookup of the load returns what the first lookup returns.\<close>

lemma lookup_dt_cached:
  assumes "dt_cache_ok c0 dates c"
  shows "fst (lookup_dt c k dates) = fst (lookup_dt c0 k dates) \<and>
         dt_cache_ok c0 dates (snd (lookup_dt c k dates))"
proof (cases "c k")
  case None
  with assms have "c0 k = None" by (simp add: dt_cache_ok_def)
  with None assms show ?thesis
    by (auto simp: lookup_dt_def Let_def dt_cache_ok_def)
next
  case (Some r)
  with assms show ?thesis
    by (auto simp: lookup_dt_def dt_cache_ok_def)
qed

lemma dt_cache_ok_refl: "dt_cache_ok c0 dates c0"
  by (auto simp: dt_cache_ok_def lookup_dt_def)

lemma dt_cache_ok_foldl:
  "dt_cache_ok c0 dates c \<Longrightarrow>
   dt_cache_ok c0 dates (foldl (\<lambda>c e. snd (lookup_dt c e dates)) c effs)"
  by (induction effs arbitrary: c) (simp_all add: lookup_dt_cached)

lemma row_for_first:
  assumes "prepopulate Map.empty 0 dates = Inr c0"
  shows "row_for dates effs eff = Inr (fst (lookup_dt c0 eff dates))"
proof -
  have "dt_cache_ok c0 dates (foldl (\<lambda>c e. snd (lookup_dt c e dates)) c0 effs)"
    by (rule dt_cache_ok_foldl [OF dt_cache_ok_refl])
  from lookup_dt_cached [OF this] assms show ?thesis
    by (simp add: row_for_def)
qed

lemma date_row_first:
  assumes "prepopulate Map.empty 0 dates = Inr c0"
  shows "date_row dates eff = fst (lookup_dt c0 eff dates)"
  by (simp add: date_row_def row_for_first [OF assms])

text \<open>On a strictly increasing axis a date sits at the row that counts the dates before it.\<close>

lemma count_less_nth:
  assumes "sorted_wrt (<) dates" "j < length dates"
  shows "count_less dates (dates ! j) = j"
proof -
  have "\<forall>i<j. dates ! i < dates ! j"
    using assms by (auto intro: sorted_wrt_nth_less)
  moreover have "\<forall>i. j \<le> i \<and> i < length dates \<longrightarrow> \<not> dates ! i < dates ! j"
  proof (intro allI impI)
    fix i assume "j \<le> i \<and> i < length dates"
    then have "j = i \<or> dates ! j < dates ! i"
      using assms(1) by (auto intro: sorted_wrt_nth_less)
    then show "\<not> dates ! i < dates ! j" by auto
  qed
  ultimately show ?thesis
    using boundary_count [of j dates "\<lambda>d. d < dates ! j"] assms(2) by (simp add: count_less_def)
qed

lemma count_le_off_axis: "k \<notin> set dates \<Longrightarrow> count_le dates k = count_less dates k"
proof -
  assume "k \<notin> set dates"
  then have "filter (\<lambda>d. d \<le> k) dates = filter (\<lambda>d. d < k) dates"
    by (intro filter_cong refl) (auto simp: less_le)
  then show ?thesis by (simp add: count_le_def count_less_def)
qed

lemma first_lookup_count_less:
  assumes "sorted_wrt (<) dates" "prepopulate Map.empty 0 dates = Inr c0"
  shows "fst (lookup_dt c0 k dates) = count_less dates k"
proof (cases "k \<in> set dates")
  case True
  from first_lookup_on_axis [OF assms(2) True] count_less_nth [OF assms(1)]
  show ?thesis by metis
next
  case False
  have "sorted dates"
    using assms(1) by (simp add: strict_sorted_iff)
  with first_lookup_off_axis [OF assms(2) False] count_le_off_axis [OF False]
  show ?thesis by (simp add: searchsorted_right_sorted)
qed

lemma count_less_boundary:
  assumes "sorted_wrt (<) dates"
  shows "(\<forall>i < count_less dates k. dates ! i < k) \<and>
         (\<forall>i. count_less dates k \<le> i \<and> i < length dates \<longrightarrow> k \<le> dates ! i)"
proof -
  let ?r = "count_less dates k"
  have s: "sorted dates" using assms by (simp add: strict_sorted_iff)
  have len: "?r \<le> length dates" by (simp add: count_less_def)
  have fl: "filter (\<lambda>d. d < k) dates = take ?r dates"
    unfolding count_less_def using s
  proof (induction dates)
    case Nil
    then show ?case by simp
  next
    case (Cons d ds)
    show ?case
    proof (cases "d < k")
      case True
      with Cons show ?thesis by simp
    next
      case False
      with Cons.prems have "\<forall>x\<in>set ds. \<not> x < k" by auto
      then have "filter (\<lambda>d. d < k) ds = []" by (simp add: filter_empty_conv)
      with False show ?thesis by simp
    qed
  qed
  have a: "\<forall>i < ?r. dates ! i < k"
  proof (intro allI impI)
    fix i assume i: "i < ?r"
    with len have "dates ! i \<in> set (take ?r dates)"
      by (metis in_set_conv_nth length_take min.absorb2 nth_take)
    with fl have "dates ! i \<in> set (filter (\<lambda>d. d < k) dates)" by simp
    then show "dates ! i < k" by simp
  qed
  have b: "\<forall>i. ?r \<le> i \<and> i < length dates \<longrightarrow> k \<le> dates ! i"
  proof (intro allI impI, rule ccontr)
    fix i assume i: "?r \<le> i \<and> i < length dates" and "\<not> k \<le> dates ! i"
    then have lt: "dates ! i < k" by simp
    have "\<forall>j\<le>i. dates ! j < k"
    proof (intro allI impI)
      fix j assume "j \<le> i"
      with s i have "dates ! j \<le> dates ! i" by (auto intro: sorted_nth_mono)
      with lt show "dates ! j < k" by simp
    qed
    then have "filter (\<lambda>d. d < k) (take (Suc i) dates) = take (Suc i) dates"
      using i by (auto simp: filter_id_conv in_set_conv_nth)
    moreover have "length (filter (\<lambda>d. d < k) (take (Suc i) dates)) \<le> ?r"
      unfolding count_less_def
      by (metis append_take_drop_id filter_append le_add1 length_append)
    ultimately show False using i by simp
  qed
  from a b show ?thesis by blast
qed

section \<open>The date lookup is a left-side search\<close>

lemma scenario_dates_increasing: "sorted_wrt (<) scenario_dates"
  by (simp add: scenario_dates_def)

lemma scenario_row_on_axis: "row_for scenario_dates effs 86400 = Inr 1"
proof -
  have "prepopulate Map.empty 0 scenario_dates =
      Inr [0 \<mapsto> 0, 86400 \<mapsto> 1, 172800 \<mapsto> Suc (Suc 0), 259200 \<mapsto> Suc (Suc (Suc 0))]"
    by (simp add: scenario_dates_def c_int_def)
  from row_for_first [OF this] show ?thesis
    by (simp add: lookup_dt_def)
qed

lemma scenario_row_off_axis: "row_for scenario_dates [] 100000 = Inr 2"
  by code_simp

text \<open>
  Claim C1, as the code has it. On a strictly increasing axis, whatever was looked up
  before in the same load, the lookup returns the number of axis dates strictly before
  \<open>eff\<close>, which is the index of the first axis date that is not before \<open>eff\<close>; for an
  effective date that is not on the axis this is the number of axis dates at most
  \<open>eff\<close>; and any other lookup of \<open>eff\<close> in the load returns the same row.
\<close>

theorem row_for_left_search:
  assumes "sorted_wrt (<) dates" and "row_for dates effs eff = Inr r"
  shows "r = count_less dates eff \<and>
         (\<forall>i<r. dates ! i < eff) \<and>
         (\<forall>i. r \<le> i \<and> i < length dates \<longrightarrow> eff \<le> dates ! i) \<and>
         (eff \<notin> set dates \<longrightarrow> r = count_le dates eff) \<and>
         row_for dates effs' eff = Inr r"
proof -
  from assms(2) obtain c0 where c0: "prepopulate Map.empty 0 dates = Inr c0"
    by (auto simp: row_for_def split: sum.splits)
  from assms(2) row_for_first [OF c0] first_lookup_count_less [OF assms(1) c0]
  have r: "r = count_less dates eff" by simp
  moreover from count_less_boundary [OF assms(1), of eff] r
  have "(\<forall>i<r. dates ! i < eff) \<and> (\<forall>i. r \<le> i \<and> i < length dates \<longrightarrow> eff \<le> dates ! i)"
    by simp
  moreover have "eff \<notin> set dates \<longrightarrow> r = count_le dates eff"
    using r by (simp add: count_le_off_axis)
  moreover have "row_for dates effs' eff = Inr r"
    using assms(2) by (simp add: row_for_first [OF c0])
  ultimately show ?thesis by blast
qed

theorem row_for_left_search_witness:
  "sorted_wrt (<) scenario_dates \<and>
   row_for scenario_dates [86400] 86400 = Inr 1 \<and>
   count_less scenario_dates 86400 = 1 \<and>
   row_for scenario_dates [86400, 86400] 86400 = Inr 1 \<and>
   row_for scenario_dates [] 100000 = Inr 2 \<and>
   count_le scenario_dates 100000 = 2"
proof -
  have off: "100000 \<notin> set scenario_dates"
    by (simp add: scenario_dates_def)
  from row_for_left_search [where effs = "[86400]" and effs' = "[86400, 86400]",
      OF scenario_dates_increasing scenario_row_on_axis]
    row_for_left_search [where effs' = "[]", OF scenario_dates_increasing scenario_row_off_axis]
    off
    scenario_dates_increasing scenario_row_on_axis [of "[86400]"] scenario_row_off_axis
  show ?thesis by simp
qed

text \<open>
  On the axis of the scenario the lookup of the second session's date returns row 1,
  while two axis dates are at most that date.
\<close>

theorem row_for_right_search_counterexample:
  "row_for scenario_dates [] 86400 = Inr 1 \<and> count_le scenario_dates 86400 = 2"
  by (simp add: scenario_row_on_axis) (simp add: count_le_def scenario_dates_def)

section \<open>The chunked fetch\<close>

lemma fetch_loop_Nil: "fetch_loop max_in rows s e [] results issued = Some (results, issued)"
  by (simp add: fetch_loop.simps)

lemma fetch_loop_Cons:
  "to_query \<noteq> [] \<Longrightarrow>
   fetch_loop max_in rows s e to_query results issued =
     fetch_loop max_in rows s e (drop (min (length to_query) max_in) to_query)
       (results @ adj_query rows (take (min (length to_query) max_in) to_query) s e)
       (issued @ [take (min (length to_query) max_in) to_query])"
  by (subst fetch_loop.simps) (simp add: Let_def)

lemma fetch_loop_single:
  "0 < max_in \<Longrightarrow> fetch_loop max_in rows s e [a] results issued =
     Some (results @ adj_query rows [a] s e, issued @ [[a]])"
  by (simp add: fetch_loop_Cons min_def fetch_loop_Nil)

text \<open>With a positive limit the loop ends, and it has issued the consecutive chunks of
  the list.\<close>

lemma fetch_loop_chunks:
  assumes "0 < max_in"
  shows "\<exists>chunks. fetch_loop max_in rows s e to_query results issued =
             Some (results @ concat (map (\<lambda>t. adj_query rows t s e) chunks), issued @ chunks) \<and>
           concat chunks = to_query \<and> (\<forall>t\<in>set chunks. t \<noteq> [] \<and> length t \<le> max_in) \<and>
           (length to_query \<le> max_in \<longrightarrow> chunks = (if to_query = [] then [] else [to_query]))"
proof (induction "length to_query" arbitrary: to_query results issued rule: less_induct)
  case less
  show ?case
  proof (cases "to_query = []")
    case True
    then have "fetch_loop max_in rows s e to_query results issued =
        Some (results @ concat (map (\<lambda>t. adj_query rows t s e) []), issued @ [])"
      by (simp add: fetch_loop_Nil)
    with True show ?thesis by (intro exI [of _ "[]"]) simp
  next
    case False
    define n where "n = min (length to_query) max_in"
    have n: "0 < n" "n \<le> max_in" "n \<le> length to_query"
      using False assms by (simp_all add: n_def)
    then have "length (drop n to_query) < length to_query" by simp
    from less [OF this, of "results @ adj_query rows (take n to_query) s e"
        "issued @ [take n to_query]"]
    obtain chunks where c:
      "fetch_loop max_in rows s e (drop n to_query)
          (results @ adj_query rows (take n to_query) s e) (issued @ [take n to_query]) =
        Some ((results @ adj_query rows (take n to_query) s e) @
                concat (map (\<lambda>t. adj_query rows t s e) chunks),
              (issued @ [take n to_query]) @ chunks)"
      "concat chunks = drop n to_query" "\<forall>t\<in>set chunks. t \<noteq> [] \<and> length t \<le> max_in"
      "length (drop n to_query) \<le> max_in \<longrightarrow>
         chunks = (if drop n to_query = [] then [] else [drop n to_query])"
      by blast
    let ?chunks = "take n to_query # chunks"
    have "fetch_loop max_in rows s e to_query results issued =
        Some (results @ concat (map (\<lambda>t. adj_query rows t s e) ?chunks), issued @ ?chunks)"
      using c(1) False by (simp add: fetch_loop_Cons [OF False] n_def)
    moreover have "concat ?chunks = to_query"
      using c(2) by simp
    moreover have "\<forall>t\<in>set ?chunks. t \<noteq> [] \<and> length t \<le> max_in"
      using c(3) n False by auto
    moreover have "length to_query \<le> max_in \<longrightarrow> ?chunks = (if to_query = [] then [] else [to_query])"
      using c(4) False by (auto simp: n_def)
    ultimately show ?thesis by blast
  qed
qed

text \<open>The rows a query returns.\<close>

lemma set_adj_query:
  "set (adj_query rows t s e) =
     {(sid, ratio, eff). (sid, ratio, eff) \<in> set rows \<and> sid \<in> set t \<and> s \<le> eff \<and> eff \<le> e}"
  by (auto simp: adj_query_def)

lemma set_concat_adj_query:
  "set (concat (map (\<lambda>t. adj_query rows t s e) chunks)) = set (adj_query rows (concat chunks) s e)"
  by (induction chunks) (auto simp: set_adj_query)

text \<open>Queries for disjoint sid lists return disjoint parts of the table.\<close>

lemma mset_adj_query_append:
  "set t1 \<inter> set t2 = {} \<Longrightarrow>
   mset (adj_query rows (t1 @ t2) s e) = mset (adj_query rows t1 s e) + mset (adj_query rows t2 s e)"
  by (induction rows) (auto simp: adj_query_def)

lemma mset_concat_adj_query:
  "distinct (concat chunks) \<Longrightarrow>
   mset (concat (map (\<lambda>t. adj_query rows t s e) chunks)) = mset (adj_query rows (concat chunks) s e)"
proof (induction chunks)
  case Nil
  show ?case by (simp add: adj_query_def)
next
  case (Cons t chunks)
  from Cons.prems have "set t \<inter> set (concat chunks) = {}" "distinct (concat chunks)"
    by auto
  with Cons.IH show ?case
    by (simp add: mset_adj_query_append)
qed

text \<open>
  Claim C5, as the code has it. For every candidate list and every positive limit the
  loop ends; every query it issues binds at least one and at most \<open>max_in\<close> sids; the
  issued chunks, in order, make up the candidate list; the result is the concatenation of
  the per-chunk results in chunk order; when the candidates are distinct it holds the same
  records, with the same multiplicities, as the single query over the whole list; and when
  the list fits into one query it is the result of that query.
\<close>

theorem chunked_fetch:
  assumes "0 < max_in"
  shows "\<exists>results issued.
           fetch_loop max_in rows s e to_query [] [] = Some (results, issued) \<and>
           (\<forall>t\<in>set issued. t \<noteq> [] \<and> length t \<le> max_in) \<and>
           concat issued = to_query \<and>
           results = concat (map (\<lambda>t. adj_query rows t s e) issued) \<and>
           (distinct to_query \<longrightarrow> mset results = mset (unchunked_fetch rows s e to_query)) \<and>
           (length to_query \<le> max_in \<longrightarrow> results = unchunked_fetch rows s e to_query)"
proof -
  from fetch_loop_chunks [OF assms, of rows s e to_query "[]" "[]"]
  obtain chunks where c:
    "fetch_loop max_in rows s e to_query [] [] =
       Some (concat (map (\<lambda>t. adj_query rows t s e) chunks), chunks)"
    "concat chunks = to_query" "\<forall>t\<in>set chunks. t \<noteq> [] \<and> length t \<le> max_in"
    "length to_query \<le> max_in \<longrightarrow> chunks = (if to_query = [] then [] else [to_query])"
    by auto
  have "distinct to_query \<longrightarrow>
      mset (concat (map (\<lambda>t. adj_query rows t s e) chunks)) = mset (unchunked_fetch rows s e to_query)"
    using mset_concat_adj_query [of chunks rows s e] c(2) by (simp add: unchunked_fetch_def)
  moreover have "length to_query \<le> max_in \<longrightarrow>
      concat (map (\<lambda>t. adj_query rows t s e) chunks) = unchunked_fetch rows s e to_query"
    using c(4) by (auto simp: unchunked_fetch_def adj_query_def)
  ultimately show ?thesis using c(1,2,3) by blast
qed

theorem chunked_fetch_witness:
  "(0::nat) < 1 \<and> distinct [102, 101 :: int] \<and>
   fetch_loop 1 [(101, 2, 86400), (102, 2, 86400)] 0 259200 [102, 101] [] [] =
     Some ([(102, 2, 86400), (101, 2, 86400)], [[102], [101]]) \<and>
   mset [(102, 2, 86400), (101, 2, 86400)] =
     mset (unchunked_fetch [(101, 2, 86400), (102, 2, 86400)] 0 259200 [102, 101])"
proof -
  have f: "fetch_loop 1 [(101, 2, 86400), (102, 2, 86400)] 0 259200 [102, 101] [] [] =
     Some ([(102, 2, 86400), (101, 2, 86400)], [[102], [101]])"
    by (simp add: fetch_loop_Cons fetch_loop_Nil adj_query_def)
  from chunked_fetch [of 1 "[(101, 2, 86400), (102, 2, 86400)]" 0 259200 "[102, 101]"] f
  show ?thesis by auto
qed

text \<open>
  With the limit 1, the candidates \<open>[102, 101]\<close> (an asset axis that is not sorted) and
  a table that stores the row of 101 before the row of 102, the chunks return the row of
  102 first, as the candidates are ordered, and the single query over both sids returns
  the row of 101 first, in table order and in sid order alike.
\<close>

theorem chunked_fetch_order_counterexample:
  "fetch_loop 1 [(101, 2, 86400), (102, 2, 86400)] 0 259200 [102, 101] [] [] =
     Some ([(102, 2, 86400), (101, 2, 86400)], [[102], [101]]) \<and>
   unchunked_fetch [(101, 2, 86400), (102, 2, 86400)] 0 259200 [102, 101] =
     [(101, 2, 86400), (102, 2, 86400)]"
  by (simp add: fetch_loop_Cons fetch_loop_Nil adj_query_def unchunked_fetch_def)

section \<open>The concrete scenario\<close>

lemma scenario_prepopulate:
  "prepopulate Map.empty 0 scenario_dates =
     Inr [0 \<mapsto> 0, 86400 \<mapsto> 1, 172800 \<mapsto> 2, 259200 \<mapsto> 3]"
  by (simp add: scenario_dates_def c_int_def numeral_2_eq_2 numeral_3_eq_3)

lemma scenario_load:
  "0 < max_in \<Longrightarrow>
   load_adjustments_from_sqlite max_in scenario_db scenario_dates scenario_assets
       True True True ''all'' =
     Some (Inr [''price'' \<mapsto> [1 \<mapsto> [\<lparr>first_row = 0, last_row = 1, first_col = 0,
                                          last_col = 0, val = 2\<rparr>]],
                ''volume'' \<mapsto> [1 \<mapsto> [\<lparr>first_row = 0, last_row = 1, first_col = 0,
                                           last_col = 0, val = 1 / 2\<rparr>]]])"
proof -
  assume pos: "0 < max_in"
  have sids: "get_split_sids scenario_db 0 259200 = {101}"
    "get_merger_sids scenario_db 0 259200 = {}"
    "get_dividend_sids scenario_db 0 259200 = {}"
    by (simp_all add: get_split_sids_def get_merger_sids_def get_dividend_sids_def
        get_sids_from_table_def scenario_db_def)
  have fetched: "adjustments max_in scenario_db {101} {} {} 0 259200 scenario_assets =
      Some (([(101, 2, 86400)], [], []), [[101]])"
    using pos by (simp add: adjustments_def scenario_assets_def scenario_db_def
        fetch_loop_single fetch_loop_Nil adj_query_def)
  have assembled: "assemble scenario_dates scenario_assets 0 True True [(101, 2, 86400)] [] [] =
      Inr [''price'' \<mapsto> [1 \<mapsto> [\<lparr>first_row = 0, last_row = 1, first_col = 0,
                                          last_col = 0, val = 2\<rparr>]],
                ''volume'' \<mapsto> [1 \<mapsto> [\<lparr>first_row = 0, last_row = 1, first_col = 0,
                                           last_col = 0, val = 1 / 2\<rparr>]]]"
    by (simp add: assemble_def scenario_prepopulate split_step_def c_int_def lookup_dt_def
        lookup_asset_def get_loc_def scenario_assets_def append_adj_def)
  show ?thesis
    by (simp add: load_adjustments_from_sqlite_def Let_def sids fetched assembled)
       (simp add: scenario_dates_def c_int_def sids fetched assembled [unfolded scenario_dates_def])
qed

lemma scenario_returns:
  "0 < max_in \<Longrightarrow>
   load_adjustments_from_sqlite max_in scenario_db scenario_dates scenario_assets
       True True True ''all'' = Some (Inr scenario_result)"
  by (simp add: scenario_load scenario_result_def)

text \<open>
  Claim C2, as the code has it. For the axis \<open>[0, 86400, 172800, 259200]\<close>, the asset
  axis \<open>[101]\<close> and the single split \<open>(101, 2.0, 86400)\<close>, with every category included
  and the adjustment type \<open>all\<close>, the load returns a price schedule whose only bucket is
  at row 1 and holds the one correction of rows 0 to 1 of column 0 by 2.0, and a volume
  schedule whose only bucket is at row 1 and holds the one correction of the same cells
  by 0.5.
\<close>

theorem scenario_split_schedules:
  "0 < max_in \<Longrightarrow>
   load_adjustments_from_sqlite max_in scenario_db scenario_dates scenario_assets
       True True True ''all'' =
     Some (Inr [''price'' \<mapsto> [1 \<mapsto> [\<lparr>first_row = 0, last_row = 1, first_col = 0,
                                          last_col = 0, val = 2\<rparr>]],
                ''volume'' \<mapsto> [1 \<mapsto> [\<lparr>first_row = 0, last_row = 1, first_col = 0,
                                           last_col = 0, val = 1 / 2\<rparr>]]])"
  by (rule scenario_load)

theorem scenario_split_schedules_witness:
  "(0::nat) < 999 \<and>
   load_adjustments_from_sqlite 999 scenario_db scenario_dates scenario_assets
       True True True ''all'' =
     Some (Inr [''price'' \<mapsto> [1 \<mapsto> [\<lparr>first_row = 0, last_row = 1, first_col = 0,
                                          last_col = 0, val = 2\<rparr>]],
                ''volume'' \<mapsto> [1 \<mapsto> [\<lparr>first_row = 0, last_row = 1, first_col = 0,
                                           last_col = 0, val = 1 / 2\<rparr>]]])"
  using scenario_split_schedules [of 999] by simp

text \<open>
  In the scenario nothing is scheduled at row 2, neither for prices nor for volumes: both
  corrections are at row 1.
\<close>

theorem scenario_row_2_counterexample:
  "scheduled (load_adjustments_from_sqlite 999 scenario_db scenario_dates scenario_assets
                True True True ''all'') ''price'' 2 = None \<and>
   scheduled (load_adjustments_from_sqlite 999 scenario_db scenario_dates scenario_assets
                True True True ''all'') ''volume'' 2 = None \<and>
   scheduled (load_adjustments_from_sqlite 999 scenario_db scenario_dates scenario_assets
                True True True ''all'') ''price'' 1 =
     Some [\<lparr>first_row = 0, last_row = 1, first_col = 0, last_col = 0, val = 2\<rparr>] \<and>
   scheduled (load_adjustments_from_sqlite 999 scenario_db scenario_dates scenario_assets
                True True True ''all'') ''volume'' 1 =
     Some [\<lparr>first_row = 0, last_row = 1, first_col = 0, last_col = 0, val = 1 / 2\<rparr>]"
  using scenario_load [of 999] by (simp add: scheduled_def)

section \<open>The record loops\<close>

lemma extend_bucket_Nil: "extend_bucket b [] = b"
  by (simp add: extend_bucket_def)

lemma extend_bucket_None: "extend_bucket None xs = bucket xs"
  by (simp add: extend_bucket_def bucket_def)

lemma extend_bucket_append: "extend_bucket (extend_bucket b xs) ys = extend_bucket b (xs @ ys)"
  by (simp add: extend_bucket_def)

lemma append_adj_apply:
  "append_adj sched k adj k' = (if k' = k then extend_bucket (sched k) [adj] else sched k')"
  by (simp add: append_adj_def extend_bucket_def)

lemma corrections_at_Nil: "corrections_at dates assets start f [] k = []"
  by (simp add: corrections_at_def)

lemma corrections_at_append:
  "corrections_at dates assets start f (xs @ ys) k =
     corrections_at dates assets start f xs k @ corrections_at dates assets start f ys k"
  by (simp add: corrections_at_def)

lemma corrections_at_Cons:
  "corrections_at dates assets start f ((sid, ratio, eff) # recs) k =
     (if start \<le> eff \<and> date_row dates eff = k
      then [\<lparr>first_row = 0, last_row = k, first_col = asset_col assets sid,
             last_col = asset_col assets sid, val = f ratio\<rparr>]
      else []) @ corrections_at dates assets start f recs k"
  by (simp add: corrections_at_def)

text \<open>The cached column lookup returns what \<open>get_loc\<close> returns.\<close>

lemma lookup_asset_Inr:
  assumes "asset_cache_ok assets c" "lookup_asset c assets sid = Inr (ix, c')"
  shows "get_loc assets sid = Inr ix \<and> asset_cache_ok assets c'"
  using assms
  by (auto simp: lookup_asset_def asset_cache_ok_def split: option.splits sum.splits if_splits)

lemma lookup_asset_found:
  assumes "asset_cache_ok assets c" "get_loc assets sid = Inr ix"
  shows "\<exists>c'. lookup_asset c assets sid = Inr (ix, c')"
  using assms
  by (auto simp: lookup_asset_def asset_cache_ok_def split: option.splits sum.splits)

text \<open>One pass of the body of the splits loop.\<close>

lemma split_step_Inr:
  assumes c0: "prepopulate Map.empty 0 dates = Inr c0"
    and d: "dt_cache_ok c0 dates (date_ixs st)"
    and a: "asset_cache_ok assets (asset_ixs st)"
    and step: "split_step dates assets start p v st (sid, ratio, eff) = Inr st'"
  shows "dt_cache_ok c0 dates (date_ixs st') \<and> asset_cache_ok assets (asset_ixs st') \<and>
         price_adjustments st' k =
           extend_bucket (price_adjustments st k)
             (if p then corrections_at dates assets start (\<lambda>r. r) [(sid, ratio, eff)] k else []) \<and>
         volume_adjustments st' k =
           extend_bucket (volume_adjustments st k)
             (if v then corrections_at dates assets start (\<lambda>r. 1 / r) [(sid, ratio, eff)] k else []) \<and>
         c_int eff = Inr eff \<and>
         (start \<le> eff \<longrightarrow> (\<exists>ix. get_loc assets sid = Inr ix) \<and> (v \<longrightarrow> ratio \<noteq> 0))"
proof -
  from step have ce: "c_int eff = Inr eff"
    by (auto simp: split_step_def c_int_def split: sum.splits if_splits)
  show ?thesis
  proof (cases "eff < start")
    case True
    with step ce have "st' = st" by (simp add: split_step_def)
    with True d a ce show ?thesis
      by (simp add: corrections_at_Cons corrections_at_Nil extend_bucket_Nil)
  next
    case False
    obtain date_loc dixs where l: "lookup_dt (date_ixs st) eff dates = (date_loc, dixs)"
      by (cases "lookup_dt (date_ixs st) eff dates")
    from lookup_dt_cached [OF d, of eff] l date_row_first [OF c0, of eff]
    have row: "date_loc = date_row dates eff" and d': "dt_cache_ok c0 dates dixs"
      by simp_all
    from step ce False l obtain asset_ix aixs where
      la: "lookup_asset (asset_ixs st) assets sid = Inr (asset_ix, aixs)"
      by (auto simp: split_step_def split: sum.splits)
    from lookup_asset_Inr [OF a la] have col: "get_loc assets sid = Inr asset_ix"
      and a': "asset_cache_ok assets aixs" by simp_all
    from col have ac: "asset_col assets sid = asset_ix" by (simp add: asset_col_def)
    from step ce False l la have nz: "v \<longrightarrow> ratio \<noteq> 0"
      by (auto simp: split_step_def Let_def split: if_splits)
    from step ce False l la nz have st':
      "date_ixs st' = dixs" "asset_ixs st' = aixs"
      "price_adjustments st' =
         (if p then append_adj (price_adjustments st) date_loc
                     \<lparr>first_row = 0, last_row = date_loc, first_col = asset_ix,
                      last_col = asset_ix, val = ratio\<rparr>
          else price_adjustments st)"
      "volume_adjustments st' =
         (if v then append_adj (volume_adjustments st) date_loc
                     \<lparr>first_row = 0, last_row = date_loc, first_col = asset_ix,
                      last_col = asset_ix, val = 1 / ratio\<rparr>
          else volume_adjustments st)"
      by (auto simp: split_step_def Let_def split: if_splits)
    from False have le: "start \<le> eff" by simp
    have "price_adjustments st' k =
           extend_bucket (price_adjustments st k)
             (if p then corrections_at dates assets start (\<lambda>r. r) [(sid, ratio, eff)] k else [])"
      using st'(3) le row ac
      by (auto simp: append_adj_apply corrections_at_Cons corrections_at_Nil extend_bucket_Nil)
    moreover have "volume_adjustments st' k =
           extend_bucket (volume_adjustments st k)
             (if v then corrections_at dates assets start (\<lambda>r. 1 / r) [(sid, ratio, eff)] k else [])"
      using st'(4) le row ac
      by (auto simp: append_adj_apply corrections_at_Cons corrections_at_Nil extend_bucket_Nil)
    ultimately show ?thesis
      using d' a' st'(1,2) ce col nz by simp
  qed
qed

text \<open>One pass of the body of the mergers and dividends loop.\<close>

lemma price_step_Inr:
  assumes c0: "prepopulate Map.empty 0 dates = Inr c0"
    and d: "dt_cache_ok c0 dates (date_ixs st)"
    and a: "asset_cache_ok assets (asset_ixs st)"
    and step: "price_step dates assets start st (sid, ratio, eff) = Inr st'"
  shows "dt_cache_ok c0 dates (date_ixs st') \<and> asset_cache_ok assets (asset_ixs st') \<and>
         price_adjustments st' k =
           extend_bucket (price_adjustments st k)
             (corrections_at dates assets start (\<lambda>r. r) [(sid, ratio, eff)] k) \<and>
         volume_adjustments st' = volume_adjustments st \<and>
         c_int eff = Inr eff \<and>
         (start \<le> eff \<longrightarrow> (\<exists>ix. get_loc assets sid = Inr ix))"
proof -
  from step have ce: "c_int eff = Inr eff"
    by (auto simp: price_step_def c_int_def split: sum.splits if_splits)
  show ?thesis
  proof (cases "eff < start")
    case True
    with step ce have "st' = st" by (simp add: price_step_def)
    with True d a ce show ?thesis
      by (simp add: corrections_at_Cons corrections_at_Nil extend_bucket_Nil)
  next
    case False
    obtain date_loc dixs where l: "lookup_dt (date_ixs st) eff dates = (date_loc, dixs)"
      by (cases "lookup_dt (date_ixs st) eff dates")
    from lookup_dt_cached [OF d, of eff] l date_row_first [OF c0, of eff]
    have row: "date_loc = date_row dates eff" and d': "dt_cache_ok c0 dates dixs"
      by simp_all
    from step ce False l obtain asset_ix aixs where
      la: "lookup_asset (asset_ixs st) assets sid = Inr (asset_ix, aixs)"
      by (auto simp: price_step_def split: sum.splits)
    from lookup_asset_Inr [OF a la] have col: "get_loc assets sid = Inr asset_ix"
      and a': "asset_cache_ok assets aixs" by simp_all
    from col have ac: "asset_col assets sid = asset_ix" by (simp add: asset_col_def)
    from step ce False l la have st':
      "date_ixs st' = dixs" "asset_ixs st' = aixs"
      "price_adjustments st' =
         append_adj (price_adjustments st) date_loc
           \<lparr>first_row = 0, last_row = date_loc, first_col = asset_ix,
            last_col = asset_ix, val = ratio\<rparr>"
      "volume_adjustments st' = volume_adjustments st"
      by (auto simp: price_step_def)
    from False have le: "start \<le> eff" by simp
    have "price_adjustments st' k =
           extend_bucket (price_adjustments st k)
             (corrections_at dates assets start (\<lambda>r. r) [(sid, ratio, eff)] k)"
      using st'(3) le row ac
      by (auto simp: append_adj_apply corrections_at_Cons corrections_at_Nil extend_bucket_Nil)
    then show ?thesis
      using d' a' st'(1,2,4) ce col by simp
  qed
qed

text \<open>The whole splits loop.\<close>

lemma splits_loop_Inr:
  assumes c0: "prepopulate Map.empty 0 dates = Inr c0"
  shows "dt_cache_ok c0 dates (date_ixs st) \<Longrightarrow> asset_cache_ok assets (asset_ixs st) \<Longrightarrow>
         for_each (split_step dates assets start p v) st recs = Inr st' \<Longrightarrow>
         dt_cache_ok c0 dates (date_ixs st') \<and> asset_cache_ok assets (asset_ixs st') \<and>
         (\<forall>k. price_adjustments st' k =
           extend_bucket (price_adjustments st k)
             (if p then corrections_at dates assets start (\<lambda>r. r) recs k else [])) \<and>
         (\<forall>k. volume_adjustments st' k =
           extend_bucket (volume_adjustments st k)
             (if v then corrections_at dates assets start (\<lambda>r. 1 / r) recs k else [])) \<and>
         (\<forall>(sid, ratio, eff)\<in>set recs. c_int eff = Inr eff \<and>
            (start \<le> eff \<longrightarrow> (\<exists>ix. get_loc assets sid = Inr ix) \<and> (v \<longrightarrow> ratio \<noteq> 0)))"
proof (induction recs arbitrary: st)
  case Nil
  then show ?case by (simp add: corrections_at_Nil extend_bucket_Nil)
next
  case (Cons rec recs)
  obtain sid ratio eff where rec: "rec = (sid, ratio, eff)" by (cases rec)
  from Cons.prems(3) obtain st1 where
    s1: "split_step dates assets start p v st (sid, ratio, eff) = Inr st1"
    and rest: "for_each (split_step dates assets start p v) st1 recs = Inr st'"
    by (auto simp: rec split: sum.splits)
  note one = split_step_Inr [OF c0 Cons.prems(1,2) s1]
  from one have ok1: "dt_cache_ok c0 dates (date_ixs st1)" "asset_cache_ok assets (asset_ixs st1)"
    by simp_all
  note more = Cons.IH [OF ok1 rest]
  have "\<forall>k. price_adjustments st' k =
           extend_bucket (price_adjustments st k)
             (if p then corrections_at dates assets start (\<lambda>r. r) (rec # recs) k else [])"
  proof
    fix k
    from more have "price_adjustments st' k = extend_bucket (price_adjustments st1 k)
        (if p then corrections_at dates assets start (\<lambda>r. r) recs k else [])" by simp
    also from one [of k] have "price_adjustments st1 k = extend_bucket (price_adjustments st k)
        (if p then corrections_at dates assets start (\<lambda>r. r) [(sid, ratio, eff)] k else [])" by simp
    finally show "price_adjustments st' k =
           extend_bucket (price_adjustments st k)
             (if p then corrections_at dates assets start (\<lambda>r. r) (rec # recs) k else [])"
      using corrections_at_append [of dates assets start "\<lambda>r. r" "[(sid, ratio, eff)]" recs k]
      by (simp add: extend_bucket_append rec)
  qed
  moreover have "\<forall>k. volume_adjustments st' k =
           extend_bucket (volume_adjustments st k)
             (if v then corrections_at dates assets start (\<lambda>r. 1 / r) (rec # recs) k else [])"
  proof
    fix k
    from more have "volume_adjustments st' k = extend_bucket (volume_adjustments st1 k)
        (if v then corrections_at dates assets start (\<lambda>r. 1 / r) recs k else [])" by simp
    also from one [of k] have "volume_adjustments st1 k = extend_bucket (volume_adjustments st k)
        (if v then corrections_at dates assets start (\<lambda>r. 1 / r) [(sid, ratio, eff)] k else [])"
      by simp
    finally show "volume_adjustments st' k =
           extend_bucket (volume_adjustments st k)
             (if v then corrections_at dates assets start (\<lambda>r. 1 / r) (rec # recs) k else [])"
      using corrections_at_append [of dates assets start "\<lambda>r. 1 / r" "[(sid, ratio, eff)]" recs k]
      by (simp add: extend_bucket_append rec)
  qed
  moreover from one more have "\<forall>(sid, ratio, eff)\<in>set (rec # recs). c_int eff = Inr eff \<and>
            (start \<le> eff \<longrightarrow> (\<exists>ix. get_loc assets sid = Inr ix) \<and> (v \<longrightarrow> ratio \<noteq> 0))"
    by (simp add: rec)
  ultimately show ?case using more by simp
qed

text \<open>The whole mergers and dividends loop.\<close>

lemma price_loop_Inr:
  assumes c0: "prepopulate Map.empty 0 dates = Inr c0"
  shows "dt_cache_ok c0 dates (date_ixs st) \<Longrightarrow> asset_cache_ok assets (asset_ixs st) \<Longrightarrow>
         for_each (price_step dates assets start) st recs = Inr st' \<Longrightarrow>
         dt_cache_ok c0 dates (date_ixs st') \<and> asset_cache_ok assets (asset_ixs st') \<and>
         (\<forall>k. price_adjustments st' k =
           extend_bucket (price_adjustments st k)
             (corrections_at dates assets start (\<lambda>r. r) recs k)) \<and>
         volume_adjustments st' = volume_adjustments st \<and>
         (\<forall>(sid, ratio, eff)\<in>set recs. c_int eff = Inr eff \<and>
            (start \<le> eff \<longrightarrow> (\<exists>ix. get_loc assets sid = Inr ix)))"
proof (induction recs arbitrary: st)
  case Nil
  then show ?case by (simp add: corrections_at_Nil extend_bucket_Nil)
next
  case (Cons rec recs)
  obtain sid ratio eff where rec: "rec = (sid, ratio, eff)" by (cases rec)
  from Cons.prems(3) obtain st1 where
    s1: "price_step dates assets start st (sid, ratio, eff) = Inr st1"
    and rest: "for_each (price_step dates assets start) st1 recs = Inr st'"
    by (auto simp: rec split: sum.splits)
  note one = price_step_Inr [OF c0 Cons.prems(1,2) s1]
  from one have ok1: "dt_cache_ok c0 dates (date_ixs st1)" "asset_cache_ok assets (asset_ixs st1)"
    by simp_all
  note more = Cons.IH [OF ok1 rest]
  have "\<forall>k. price_adjustments st' k =
           extend_bucket (price_adjustments st k)
             (corrections_at dates assets start (\<lambda>r. r) (rec # recs) k)"
  proof
    fix k
    from more have "price_adjustments st' k = extend_bucket (price_adjustments st1 k)
        (corrections_at dates assets start (\<lambda>r. r) recs k)" by simp
    also from one [of k] have "price_adjustments st1 k = extend_bucket (price_adjustments st k)
        (corrections_at dates assets start (\<lambda>r. r) [(sid, ratio, eff)] k)" by simp
    finally show "price_adjustments st' k =
           extend_bucket (price_adjustments st k)
             (corrections_at dates assets start (\<lambda>r. r) (rec # recs) k)"
      using corrections_at_append [of dates assets start "\<lambda>r. r" "[(sid, ratio, eff)]" recs k]
      by (simp add: extend_bucket_append rec)
  qed
  moreover from one more have "\<forall>(sid, ratio, eff)\<in>set (rec # recs). c_int eff = Inr eff \<and>
            (start \<le> eff \<longrightarrow> (\<exists>ix. get_loc assets sid = Inr ix))"
    by (simp add: rec)
  moreover from one more have "volume_adjustments st' = volume_adjustments st"
    by simp
  ultimately show ?case using more by simp
qed

text \<open>
  What a load that raises nothing returns: at every row, the price bucket holds the
  corrections of the splits and then those of the mergers and dividends, each with the
  record's ratio; the volume bucket holds the corrections of the splits, each with the
  inverse of the record's ratio.
\<close>

lemma assemble_Inr:
  assumes "assemble dates assets start p v ss ms ds = Inr res"
  shows "res ''price'' =
           (if p then Some (\<lambda>k. bucket (corrections_at dates assets start (\<lambda>r. r) ss k @
                                        corrections_at dates assets start (\<lambda>r. r) (ms @ ds) k))
            else None)"
    and "res ''volume'' =
           (if v then Some (\<lambda>k. bucket (corrections_at dates assets start (\<lambda>r. 1 / r) ss k))
            else None)"
    and "key \<noteq> ''price'' \<Longrightarrow> key \<noteq> ''volume'' \<Longrightarrow> res key = None"
    and "\<exists>c0. prepopulate Map.empty 0 dates = Inr c0"
    and "\<forall>(sid, ratio, eff)\<in>set (ss @ ms @ ds). c_int eff = Inr eff \<and>
            (start \<le> eff \<longrightarrow> (\<exists>ix. get_loc assets sid = Inr ix))"
    and "\<forall>(sid, ratio, eff)\<in>set ss. start \<le> eff \<and> v \<longrightarrow> ratio \<noteq> 0"
proof -
  from assms obtain c0 where c0: "prepopulate Map.empty 0 dates = Inr c0"
    by (cases "prepopulate Map.empty 0 dates") (simp_all add: assemble_def)
  from assms c0 obtain st1 where
    l1: "for_each (split_step dates assets start p v)
               \<lparr>price_adjustments = Map.empty, volume_adjustments = Map.empty,
                asset_ixs = Map.empty, date_ixs = c0\<rparr> ss = Inr st1"
    by (cases "for_each (split_step dates assets start p v)
               \<lparr>price_adjustments = Map.empty, volume_adjustments = Map.empty,
                asset_ixs = Map.empty, date_ixs = c0\<rparr> ss") (simp_all add: assemble_def)
  from assms c0 l1 obtain st2 where
    l2: "for_each (price_step dates assets start) st1 (ms @ ds) = Inr st2"
    by (cases "for_each (price_step dates assets start) st1 (ms @ ds)")
      (simp_all add: assemble_def)
  from assms c0 l1 l2 have
    res: "res = (if v then (if p then [''price'' \<mapsto> price_adjustments st2] else Map.empty)
                                 (''volume'' \<mapsto> volume_adjustments st2)
                     else (if p then [''price'' \<mapsto> price_adjustments st2] else Map.empty))"
    by (simp add: assemble_def Let_def)
  have "dt_cache_ok c0 dates (date_ixs \<lparr>price_adjustments = Map.empty,
      volume_adjustments = Map.empty, asset_ixs = Map.empty, date_ixs = c0\<rparr>)"
    by (simp add: dt_cache_ok_refl)
  moreover have "asset_cache_ok assets (asset_ixs \<lparr>price_adjustments = Map.empty,
      volume_adjustments = Map.empty, asset_ixs = Map.empty, date_ixs = c0\<rparr>)"
    by (simp add: asset_cache_ok_def)
  ultimately have f1: "dt_cache_ok c0 dates (date_ixs st1) \<and> asset_cache_ok assets (asset_ixs st1) \<and>
         (\<forall>k. price_adjustments st1 k =
           extend_bucket None (if p then corrections_at dates assets start (\<lambda>r. r) ss k else [])) \<and>
         (\<forall>k. volume_adjustments st1 k =
           extend_bucket None (if v then corrections_at dates assets start (\<lambda>r. 1 / r) ss k else [])) \<and>
         (\<forall>(sid, ratio, eff)\<in>set ss. c_int eff = Inr eff \<and>
            (start \<le> eff \<longrightarrow> (\<exists>ix. get_loc assets sid = Inr ix) \<and> (v \<longrightarrow> ratio \<noteq> 0)))"
    using splits_loop_Inr [OF c0 _ _ l1] by simp
  then have ok1: "dt_cache_ok c0 dates (date_ixs st1)" "asset_cache_ok assets (asset_ixs st1)"
    by simp_all
  note f2 = price_loop_Inr [OF c0 ok1 l2]
  have price: "p \<Longrightarrow> price_adjustments st2 =
      (\<lambda>k. bucket (corrections_at dates assets start (\<lambda>r. r) ss k @
                   corrections_at dates assets start (\<lambda>r. r) (ms @ ds) k))"
  proof
    fix k assume p
    from f2 have "price_adjustments st2 k = extend_bucket (price_adjustments st1 k)
        (corrections_at dates assets start (\<lambda>r. r) (ms @ ds) k)" by simp
    also from f1 \<open>p\<close> have "price_adjustments st1 k =
        extend_bucket None (corrections_at dates assets start (\<lambda>r. r) ss k)" by simp
    finally show "price_adjustments st2 k =
        bucket (corrections_at dates assets start (\<lambda>r. r) ss k @
                corrections_at dates assets start (\<lambda>r. r) (ms @ ds) k)"
      by (simp add: extend_bucket_append flip: extend_bucket_None)
  qed
  have volume: "v \<Longrightarrow> volume_adjustments st2 =
      (\<lambda>k. bucket (corrections_at dates assets start (\<lambda>r. 1 / r) ss k))"
  proof
    fix k assume v
    from f2 have "volume_adjustments st2 k = volume_adjustments st1 k" by simp
    also from f1 \<open>v\<close> have "volume_adjustments st1 k =
        extend_bucket None (corrections_at dates assets start (\<lambda>r. 1 / r) ss k)" by simp
    finally show "volume_adjustments st2 k =
        bucket (corrections_at dates assets start (\<lambda>r. 1 / r) ss k)"
      by (simp add: extend_bucket_None)
  qed
  show "res ''price'' =
           (if p then Some (\<lambda>k. bucket (corrections_at dates assets start (\<lambda>r. r) ss k @
                                        corrections_at dates assets start (\<lambda>r. r) (ms @ ds) k))
            else None)"
    using price by (simp add: res)
  show "res ''volume'' =
           (if v then Some (\<lambda>k. bucket (corrections_at dates assets start (\<lambda>r. 1 / r) ss k))
            else None)"
    using volume by (simp add: res)
  show "key \<noteq> ''price'' \<Longrightarrow> key \<noteq> ''volume'' \<Longrightarrow> res key = None"
    by (simp add: res)
  show "\<exists>c0. prepopulate Map.empty 0 dates = Inr c0"
    using c0 by blast
  from f1 have b1: "\<forall>(sid, ratio, eff)\<in>set ss. c_int eff = Inr eff \<and>
            (start \<le> eff \<longrightarrow> (\<exists>ix. get_loc assets sid = Inr ix) \<and> (v \<longrightarrow> ratio \<noteq> 0))"
    by blast
  from f2 have b2: "\<forall>(sid, ratio, eff)\<in>set (ms @ ds). c_int eff = Inr eff \<and>
            (start \<le> eff \<longrightarrow> (\<exists>ix. get_loc assets sid = Inr ix))"
    by blast
  show "\<forall>(sid, ratio, eff)\<in>set (ss @ ms @ ds). c_int eff = Inr eff \<and>
            (start \<le> eff \<longrightarrow> (\<exists>ix. get_loc assets sid = Inr ix))"
  proof (intro ballI)
    fix x assume "x \<in> set (ss @ ms @ ds)"
    then have "x \<in> set ss \<or> x \<in> set (ms @ ds)" by simp
    with b1 b2 show "case x of (sid, ratio, eff) \<Rightarrow> c_int eff = Inr eff \<and>
            (start \<le> eff \<longrightarrow> (\<exists>ix. get_loc assets sid = Inr ix))"
      by (cases x) blast
  qed
  show "\<forall>(sid, ratio, eff)\<in>set ss. start \<le> eff \<and> v \<longrightarrow> ratio \<noteq> 0"
  proof (intro ballI)
    fix x assume "x \<in> set ss"
    with b1 show "case x of (sid, ratio, eff) \<Rightarrow> start \<le> eff \<and> v \<longrightarrow> ratio \<noteq> 0"
      by (cases x) blast
  qed
qed

section \<open>What the loader fetches\<close>

text \<open>The loop returns only for a positive limit or an empty list.\<close>

lemma fetch_loop_Some:
  assumes "fetch_loop max_in rows s e to_query results issued = Some y"
  shows "0 < max_in \<or> to_query = []"
proof (rule fetch_loop.raw_induct
    [where P = "\<lambda>m rows s e tq results issued y. 0 < m \<or> tq = []", OF _ assms], goal_cases)
  case (1 f m rows s e tq results issued y)
  show ?case
  proof (cases "tq = [] \<or> 0 < m")
    case True
    then show ?thesis by blast
  next
    case False
    with 1(2) have "f m rows s e tq (results @ adj_query rows [] s e) (issued @ [[]]) = Some y"
      by (simp add: Let_def)
    from 1(1) [OF this] False show ?thesis by simp
  qed
qed

lemma fetch_loop_zero:
  "to_query \<noteq> [] \<Longrightarrow> fetch_loop 0 rows s e to_query results issued = None"
  using fetch_loop_Some [of 0 rows s e to_query results issued]
  by (cases "fetch_loop 0 rows s e to_query results issued") auto

lemma fetch_loop_returns:
  "fetch_loop max_in rows s e to_query results issued \<noteq> None \<longleftrightarrow> 0 < max_in \<or> to_query = []"
proof (cases "0 < max_in")
  case True
  with fetch_loop_chunks [OF True, of rows s e to_query results issued] show ?thesis by auto
next
  case False
  then show ?thesis
    by (cases "to_query = []") (simp_all add: fetch_loop_Nil fetch_loop_zero)
qed

text \<open>The loop sees the table only through the answers to its queries.\<close>

lemma fetch_loop_cong:
  assumes "\<And>t. adj_query rows t s e = adj_query rows' t s e"
  shows "fetch_loop max_in rows s e to_query results issued =
         fetch_loop max_in rows' s e to_query results issued"
proof (cases "0 < max_in")
  case False
  then show ?thesis
    by (cases "to_query = []") (simp_all add: fetch_loop_Nil fetch_loop_zero)
next
  case True
  show ?thesis
  proof (induction "length to_query" arbitrary: to_query results issued rule: less_induct)
    case less
    show ?case
    proof (cases "to_query = []")
      case True
      then show ?thesis by (simp add: fetch_loop_Nil)
    next
      case False
      define n where "n = min (length to_query) max_in"
      have "length (drop n to_query) < length to_query"
        using False \<open>0 < max_in\<close> by (simp add: n_def)
      from less [OF this] assms show ?thesis
        by (simp add: fetch_loop_Cons [OF False] n_def)
    qed
  qed
qed

lemma adj_query_in_range: "adj_query (in_range s e rows) t s e = adj_query rows t s e"
  by (auto simp: adj_query_def in_range_def intro: filter_cong)

lemma get_sids_in_range:
  "get_sids_from_table db tn s e = fst ` set (in_range s e (table_rows db tn))"
  by (simp add: get_sids_from_table_def in_range_def)

text \<open>Filtering the candidates by the sids of the range loses no row of the range.\<close>

lemma adj_query_candidates:
  "adj_query rows (filter (\<lambda>a. a \<in> fst ` set (in_range s e rows)) assets) s e =
   adj_query rows assets s e"
  unfolding adj_query_def
  by (rule filter_cong) (force simp: in_range_def)+

lemma fetch_loop_set_from:
  assumes "fetch_loop max_in rows s e to_query [] issued0 = Some (results, issued)"
  shows "set results = set (adj_query rows to_query s e)"
proof (cases "0 < max_in")
  case True
  from fetch_loop_chunks [OF True, of rows s e to_query "[]" issued0] assms
  show ?thesis by (auto simp: set_concat_adj_query simp del: set_concat)
next
  case False
  with fetch_loop_Some [OF assms] have "to_query = []" by simp
  with assms show ?thesis by (simp add: fetch_loop_Nil adj_query_def)
qed

lemma set_adj_query_assets:
  "set (adj_query rows (filter (\<lambda>a. a \<in> fst ` set (in_range s e rows)) assets) s e) =
     {x \<in> set (in_range s e rows). fst x \<in> set assets}"
  by (subst adj_query_candidates) (auto simp: adj_query_def in_range_def)

lemma adjustments_Some:
  assumes "adjustments max_in db split_sids merger_sids dividends_sids s e assets =
             Some ((ss, ms, ds), issued)"
  shows "set ss = set (adj_query (splits db) (filter (\<lambda>a. a \<in> split_sids) assets) s e)"
    and "set ms = set (adj_query (mergers db) (filter (\<lambda>a. a \<in> merger_sids) assets) s e)"
    and "set ds = set (adj_query (dividends db) (filter (\<lambda>a. a \<in> dividends_sids) assets) s e)"
proof -
  from assms obtain i1 i2 where
    f1: "fetch_loop max_in (splits db) s e (filter (\<lambda>a. a \<in> split_sids) assets) [] [] = Some (ss, i1)"
    and f2: "fetch_loop max_in (mergers db) s e (filter (\<lambda>a. a \<in> merger_sids) assets) [] i1 =
              Some (ms, i2)"
    and f3: "fetch_loop max_in (dividends db) s e (filter (\<lambda>a. a \<in> dividends_sids) assets) [] i2 =
              Some (ds, issued)"
    by (auto simp: adjustments_def split: option.splits)
  show "set ss = set (adj_query (splits db) (filter (\<lambda>a. a \<in> split_sids) assets) s e)"
    by (rule fetch_loop_set_from [OF f1])
  show "set ms = set (adj_query (mergers db) (filter (\<lambda>a. a \<in> merger_sids) assets) s e)"
    by (rule fetch_loop_set_from [OF f2])
  show "set ds = set (adj_query (dividends db) (filter (\<lambda>a. a \<in> dividends_sids) assets) s e)"
    by (rule fetch_loop_set_from [OF f3])
qed

text \<open>With a positive limit \<open>_adjustments\<close> returns.\<close>

lemma adjustments_returns:
  assumes "0 < max_in"
  shows "\<exists>ss ms ds issued.
           adjustments max_in db split_sids merger_sids dividends_sids s e assets =
             Some ((ss, ms, ds), issued)"
proof -
  from fetch_loop_chunks [OF assms] obtain ss i1 where
    f1: "fetch_loop max_in (splits db) s e (filter (\<lambda>a. a \<in> split_sids) assets) [] [] = Some (ss, i1)"
    by blast
  from fetch_loop_chunks [OF assms] obtain ms i2 where
    f2: "fetch_loop max_in (mergers db) s e (filter (\<lambda>a. a \<in> merger_sids) assets) [] i1 =
           Some (ms, i2)"
    by blast
  from fetch_loop_chunks [OF assms] obtain ds i3 where
    f3: "fetch_loop max_in (dividends db) s e (filter (\<lambda>a. a \<in> dividends_sids) assets) [] i2 =
           Some (ds, i3)"
    by blast
  from f1 f2 f3 show ?thesis by (simp add: adjustments_def)
qed

text \<open>The loader after its validation and the two date conversions.\<close>

lemma load_unfold:
  assumes "ty = ''price'' \<or> ty = ''volume'' \<or> ty = ''all''" "dates \<noteq> []"
    and "c_int (hd dates) = Inr (hd dates)" "c_int (last dates) = Inr (last dates)"
  shows "load_adjustments_from_sqlite max_in db dates assets inc_s inc_m inc_d ty =
     (case adjustments max_in db
             (if inc_s then get_split_sids db (hd dates) (last dates) else {})
             (if inc_m \<and> (ty = ''all'' \<or> ty = ''price'')
              then get_merger_sids db (hd dates) (last dates) else {})
             (if inc_d \<and> (ty = ''all'' \<or> ty = ''price'')
              then get_dividend_sids db (hd dates) (last dates) else {})
             (hd dates) (last dates) assets of
        None \<Rightarrow> None
      | Some ((ss, ms, ds), issued) \<Rightarrow>
          Some (assemble dates assets (hd dates) (ty = ''all'' \<or> ty = ''price'')
                  (ty = ''all'' \<or> ty = ''volume'') ss ms ds))"
proof -
  have m: "(if \<not> (ty = ''all'' \<or> ty = ''price'') then False else inc_m) =
           (inc_m \<and> (ty = ''all'' \<or> ty = ''price''))"
    and d: "(if \<not> (ty = ''all'' \<or> ty = ''price'') then False else inc_d) =
           (inc_d \<and> (ty = ''all'' \<or> ty = ''price''))"
    by auto
  show ?thesis
    unfolding load_adjustments_from_sqlite_def Let_def m d
    using assms by simp
qed

lemma load_preconditions:
  assumes "load_adjustments_from_sqlite max_in db dates assets inc_s inc_m inc_d ty = Some (Inr res)"
  shows "ty = ''price'' \<or> ty = ''volume'' \<or> ty = ''all''" and "dates \<noteq> []"
    and "c_int (hd dates) = Inr (hd dates)" and "c_int (last dates) = Inr (last dates)"
proof -
  show v: "ty = ''price'' \<or> ty = ''volume'' \<or> ty = ''all''"
  proof (rule ccontr)
    assume "\<not> ?thesis"
    then have "load_adjustments_from_sqlite max_in db dates assets inc_s inc_m inc_d ty =
        Some (Inl ValueError)"
      unfolding load_adjustments_from_sqlite_def by simp
    with assms show False by simp
  qed
  show d: "dates \<noteq> []"
  proof
    assume "dates = []"
    with v have "load_adjustments_from_sqlite max_in db dates assets inc_s inc_m inc_d ty =
        Some (Inl IndexError)"
      unfolding load_adjustments_from_sqlite_def Let_def by simp
    with assms show False by simp
  qed
  show h: "c_int (hd dates) = Inr (hd dates)"
  proof (cases "c_int (hd dates)")
    case (Inl err)
    with v d have "load_adjustments_from_sqlite max_in db dates assets inc_s inc_m inc_d ty =
        Some (Inl err)"
      unfolding load_adjustments_from_sqlite_def Let_def by simp
    with assms show ?thesis by simp
  next
    case (Inr x)
    with c_int_Inr [OF Inr] show ?thesis by simp
  qed
  show "c_int (last dates) = Inr (last dates)"
  proof (cases "c_int (last dates)")
    case (Inl err)
    with v d h have "load_adjustments_from_sqlite max_in db dates assets inc_s inc_m inc_d ty =
        Some (Inl err)"
      unfolding load_adjustments_from_sqlite_def Let_def by simp
    with assms show ?thesis by simp
  next
    case (Inr x)
    with c_int_Inr [OF Inr] show ?thesis by simp
  qed
qed

lemma set_fetched:
  "set (adj_query (table_rows db tn)
          (filter (\<lambda>a. a \<in> (if b then get_sids_from_table db tn s e else {})) assets) s e) =
     (if b then {x \<in> set (in_range s e (table_rows db tn)). fst x \<in> set assets} else {})"
proof (cases b)
  case True
  then show ?thesis by (simp add: get_sids_in_range set_adj_query_assets)
next
  case False
  then show ?thesis by (simp add: adj_query_def)
qed

text \<open>
  A load that returns schedules has assembled them from the rows of the three tables
  that lie in the date range and belong to an asset of the axis.
\<close>

lemma load_Inr:
  assumes "load_adjustments_from_sqlite max_in db dates assets inc_s inc_m inc_d ty = Some (Inr res)"
  shows "\<exists>ss ms ds.
           assemble dates assets (hd dates) (ty = ''all'' \<or> ty = ''price'')
             (ty = ''all'' \<or> ty = ''volume'') ss ms ds = Inr res \<and>
           set ss = (if inc_s
                     then {x \<in> set (in_range (hd dates) (last dates) (splits db)). fst x \<in> set assets}
                     else {}) \<and>
           set ms = (if inc_m \<and> (ty = ''all'' \<or> ty = ''price'')
                     then {x \<in> set (in_range (hd dates) (last dates) (mergers db)). fst x \<in> set assets}
                     else {}) \<and>
           set ds = (if inc_d \<and> (ty = ''all'' \<or> ty = ''price'')
                     then {x \<in> set (in_range (hd dates) (last dates) (dividends db)). fst x \<in> set assets}
                     else {})"
proof -
  note pre = load_preconditions [OF assms]
  from assms [unfolded load_unfold [OF pre]] obtain ss ms ds issued where
    a: "adjustments max_in db
             (if inc_s then get_split_sids db (hd dates) (last dates) else {})
             (if inc_m \<and> (ty = ''all'' \<or> ty = ''price'')
              then get_merger_sids db (hd dates) (last dates) else {})
             (if inc_d \<and> (ty = ''all'' \<or> ty = ''price'')
              then get_dividend_sids db (hd dates) (last dates) else {})
             (hd dates) (last dates) assets = Some ((ss, ms, ds), issued)"
    and r: "assemble dates assets (hd dates) (ty = ''all'' \<or> ty = ''price'')
             (ty = ''all'' \<or> ty = ''volume'') ss ms ds = Inr res"
    by (auto split: option.splits)
  note sets = adjustments_Some [OF a]
  have "set ss = (if inc_s
                     then {x \<in> set (in_range (hd dates) (last dates) (splits db)). fst x \<in> set assets}
                     else {})"
    unfolding sets(1) get_split_sids_def
    using set_fetched [of db Splits inc_s "hd dates" "last dates" assets]
    by (simp only: table_rows.simps)
  moreover have "set ms = (if inc_m \<and> (ty = ''all'' \<or> ty = ''price'')
                     then {x \<in> set (in_range (hd dates) (last dates) (mergers db)). fst x \<in> set assets}
                     else {})"
    unfolding sets(2) get_merger_sids_def
    using set_fetched [of db Mergers "inc_m \<and> (ty = ''all'' \<or> ty = ''price'')"
        "hd dates" "last dates" assets]
    by (simp only: table_rows.simps)
  moreover have "set ds = (if inc_d \<and> (ty = ''all'' \<or> ty = ''price'')
                     then {x \<in> set (in_range (hd dates) (last dates) (dividends db)). fst x \<in> set assets}
                     else {})"
    unfolding sets(3) get_dividend_sids_def
    using set_fetched [of db Dividends "inc_d \<and> (ty = ''all'' \<or> ty = ''price'')"
        "hd dates" "last dates" assets]
    by (simp only: table_rows.simps)
  ultimately show ?thesis using r by blast
qed

section \<open>The corrections of a returned schedule\<close>

lemma get_loc_Inr:
  assumes "get_loc assets sid = Inr ix"
  shows "ix < length assets \<and> assets ! ix = sid"
proof -
  from assms have "filter (\<lambda>i. assets ! i = sid) [0..<length assets] = [ix]"
    by (auto simp: get_loc_def split: list.splits)
  then have "ix \<in> set (filter (\<lambda>i. assets ! i = sid) [0..<length assets])"
    by simp
  then show ?thesis by simp
qed

text \<open>A date of the request range resolves to a row of the axis, sorted or not.\<close>

lemma date_row_bound:
  assumes c0: "prepopulate Map.empty 0 dates = Inr c0" and ne: "dates \<noteq> []"
    and le: "eff \<le> last dates"
  shows "date_row dates eff < length dates"
proof (cases "eff \<in> set dates")
  case True
  from first_lookup_on_axis [OF c0 True] show ?thesis
    by (simp add: date_row_first [OF c0])
next
  case False
  have r: "date_row dates eff = searchsorted_right dates eff"
    using first_lookup_off_axis [OF c0 False] by (simp add: date_row_first [OF c0])
  show ?thesis
  proof (rule ccontr)
    assume "\<not> ?thesis"
    with r searchsorted_right_le [of dates eff] have "searchsorted_right dates eff = length dates"
      by simp
    from searchsorted_right_top [OF ne this] le have "eff = last dates" by simp
    with ne False show False by simp
  qed
qed

lemma bucket_Some: "bucket xs = Some ys \<Longrightarrow> ys = xs \<and> xs \<noteq> []"
  by (simp add: bucket_def split: if_splits)

lemma in_corrections_at:
  assumes "a \<in> set (corrections_at dates assets start f recs row)"
  shows "\<exists>sid ratio eff. (sid, ratio, eff) \<in> set recs \<and> start \<le> eff \<and> date_row dates eff = row \<and>
           a = \<lparr>first_row = 0, last_row = row, first_col = asset_col assets sid,
                last_col = asset_col assets sid, val = f ratio\<rparr>"
  using assms by (auto simp: corrections_at_def)

text \<open>
  Every correction of a returned schedule comes from a row of a table that lies in the
  date range and belongs to an asset of the axis; it covers the rows from 0 to the row
  of its bucket, in the column of its asset.
\<close>

lemma scheduled_correction:
  assumes load: "load_adjustments_from_sqlite max_in db dates assets inc_s inc_m inc_d ty =
                   Some (Inr res)"
    and key: "res key = Some sched" and row: "sched row = Some adjs" and a: "a \<in> set adjs"
  shows "\<exists>sid ratio eff.
           (sid, ratio, eff) \<in> set (splits db @ mergers db @ dividends db) \<and>
           hd dates \<le> eff \<and> eff \<le> last dates \<and>
           get_loc assets sid = Inr (first_col a) \<and> date_row dates eff = row \<and>
           row_for dates [] eff = Inr row \<and>
           first_row a = 0 \<and> last_row a = row \<and> last_col a = first_col a \<and>
           (val a = ratio \<or> val a = 1 / ratio)"
proof -
  let ?s = "hd dates" and ?e = "last dates"
  let ?p = "ty = ''all'' \<or> ty = ''price''" and ?v = "ty = ''all'' \<or> ty = ''volume''"
  from load_Inr [OF load] obtain ss ms ds where
    asm: "assemble dates assets ?s ?p ?v ss ms ds = Inr res"
    and ss: "set ss \<subseteq> {x \<in> set (in_range ?s ?e (splits db)). fst x \<in> set assets}"
    and ms: "set ms \<subseteq> {x \<in> set (in_range ?s ?e (mergers db)). fst x \<in> set assets}"
    and ds: "set ds \<subseteq> {x \<in> set (in_range ?s ?e (dividends db)). fst x \<in> set assets}"
    by (auto split: if_splits)
  note A = assemble_Inr [OF asm]
  from A(4) obtain c0 where c0: "prepopulate Map.empty 0 dates = Inr c0" by blast
  have "\<exists>f recs. a \<in> set (corrections_at dates assets ?s f recs row) \<and>
          set recs \<subseteq> set (ss @ ms @ ds) \<and> (f = (\<lambda>r. r) \<or> f = (\<lambda>r. 1 / r))"
  proof (cases "key = ''price''")
    case True
    with key A(1) have "sched = (\<lambda>k. bucket (corrections_at dates assets ?s (\<lambda>r. r) ss k @
                                        corrections_at dates assets ?s (\<lambda>r. r) (ms @ ds) k))"
      by (simp split: if_splits)
    with row bucket_Some have "adjs = corrections_at dates assets ?s (\<lambda>r. r) (ss @ ms @ ds) row"
      by (simp add: corrections_at_append) blast
    with a show ?thesis by blast
  next
    case False
    with key A(3) [of key] have k: "key = ''volume''" by auto
    with key A(2) have "sched = (\<lambda>k. bucket (corrections_at dates assets ?s (\<lambda>r. 1 / r) ss k))"
      by (simp split: if_splits)
    with row bucket_Some have "adjs = corrections_at dates assets ?s (\<lambda>r. 1 / r) ss row"
      by simp blast
    with a have "a \<in> set (corrections_at dates assets ?s (\<lambda>r. 1 / r) ss row) \<and>
        set ss \<subseteq> set (ss @ ms @ ds)" by simp
    then show ?thesis by blast
  qed
  then obtain f recs where in_c: "a \<in> set (corrections_at dates assets ?s f recs row)"
    and sub: "set recs \<subseteq> set (ss @ ms @ ds)" and f: "f = (\<lambda>r. r) \<or> f = (\<lambda>r. 1 / r)"
    by blast
  from in_corrections_at [OF in_c] obtain sid ratio eff where
    rec: "(sid, ratio, eff) \<in> set recs" and st: "?s \<le> eff" and dr: "date_row dates eff = row"
    and av: "a = \<lparr>first_row = 0, last_row = row, first_col = asset_col assets sid,
                last_col = asset_col assets sid, val = f ratio\<rparr>"
    by blast
  from rec sub have fetched: "(sid, ratio, eff) \<in> set (ss @ ms @ ds)" by blast
  with ss ms ds have tbl: "(sid, ratio, eff) \<in> set (splits db @ mergers db @ dividends db)"
    and en: "eff \<le> ?e"
    by (auto simp: in_range_def)
  from A(5) fetched st obtain ix where "get_loc assets sid = Inr ix" by fastforce
  then have col: "get_loc assets sid = Inr (asset_col assets sid)"
    by (simp add: asset_col_def)
  have rf: "row_for dates [] eff = Inr row"
    using row_for_first [OF c0, of "[]" eff] date_row_first [OF c0, of eff] dr by simp
  from f have "val a = ratio \<or> val a = 1 / ratio" by (auto simp: av)
  with tbl st en col dr rf show ?thesis
    by (intro exI [of _ sid] exI [of _ ratio] exI [of _ eff]) (simp add: av)
qed

lemma scheduled_nonempty:
  assumes load: "load_adjustments_from_sqlite max_in db dates assets inc_s inc_m inc_d ty =
                   Some (Inr res)"
    and key: "res key = Some sched" and row: "sched row = Some adjs"
  shows "adjs \<noteq> []"
proof -
  from load_Inr [OF load] obtain ss ms ds where
    asm: "assemble dates assets (hd dates) (ty = ''all'' \<or> ty = ''price'')
            (ty = ''all'' \<or> ty = ''volume'') ss ms ds = Inr res"
    by blast
  note A = assemble_Inr [OF asm]
  show ?thesis
  proof (cases "key = ''price''")
    case True
    with key A(1) have "sched = (\<lambda>k. bucket (corrections_at dates assets (hd dates) (\<lambda>r. r) ss k @
                            corrections_at dates assets (hd dates) (\<lambda>r. r) (ms @ ds) k))"
      by (simp split: if_splits)
    with row show ?thesis by (auto dest: bucket_Some)
  next
    case False
    with key A(3) [of key] have k: "key = ''volume''" by auto
    with key A(2) have "sched = (\<lambda>k. bucket (corrections_at dates assets (hd dates) (\<lambda>r. 1 / r) ss k))"
      by (simp split: if_splits)
    with row show ?thesis by (auto dest: bucket_Some)
  qed
qed

section \<open>The region of a correction\<close>



lemma scenario_volume_bucket:
  "scenario_result ''volume'' =
     Some [1 \<mapsto> [\<lparr>first_row = 0, last_row = 1, first_col = 0, last_col = 0, val = 1 / 2\<rparr>]]"
  by (simp add: scenario_result_def)



section \<open>Rows and columns stay within the axes\<close>

text \<open>
  Claim C8. In every schedule a load returns, every row key and every first and last row
  of a correction is below the number of axis dates, and every first and last column is
  below the number of axis assets. The two assumptions of the claim hold in every load:
  the queries return only records whose effective date is at most the last axis date, for
  sids taken from the asset axis.
\<close>

theorem indices_within_axes:
  assumes "load_adjustments_from_sqlite max_in db dates assets inc_s inc_m inc_d ty =
             Some (Inr res)"
    and "res key = Some sched" and "sched row = Some adjs"
  shows "row < length dates \<and>
         (\<forall>a\<in>set adjs. first_row a < length dates \<and> last_row a < length dates \<and>
                       first_col a < length assets \<and> last_col a < length assets)"
proof -
  note pre = load_preconditions [OF assms(1)]
  from load_Inr [OF assms(1)] obtain ss ms ds where
    "assemble dates assets (hd dates) (ty = ''all'' \<or> ty = ''price'')
       (ty = ''all'' \<or> ty = ''volume'') ss ms ds = Inr res"
    by blast
  from assemble_Inr(4) [OF this] obtain c0 where c0: "prepopulate Map.empty 0 dates = Inr c0"
    by blast
  have each: "first_row a = 0 \<and> last_row a = row \<and> row < length dates \<and>
      first_col a < length assets \<and> last_col a < length assets" if "a \<in> set adjs" for a
  proof -
    from scheduled_correction [OF assms that] obtain sid ratio eff where
      e: "eff \<le> last dates" and g: "get_loc assets sid = Inr (first_col a)"
      and d: "date_row dates eff = row"
      and f: "first_row a = 0" "last_row a = row" "last_col a = first_col a"
      by blast
    from date_row_bound [OF c0 pre(2) e] d have "row < length dates" by simp
    with get_loc_Inr [OF g] f show ?thesis by simp
  qed
  from scheduled_nonempty [OF assms] obtain a where "a \<in> set adjs"
    by (cases adjs) auto
  with each have "row < length dates" by blast
  with each show ?thesis by auto
qed

theorem indices_within_axes_witness:
  "load_adjustments_from_sqlite 999 scenario_db scenario_dates scenario_assets
       True True True ''all'' = Some (Inr scenario_result) \<and>
   scenario_result ''volume'' =
     Some [1 \<mapsto> [\<lparr>first_row = 0, last_row = 1, first_col = 0, last_col = 0, val = 1 / 2\<rparr>]] \<and>
   (1::nat) < length scenario_dates \<and>
   last_row \<lparr>first_row = 0, last_row = 1, first_col = 0, last_col = 0, val = 1 / 2\<rparr>
     < length scenario_dates \<and>
   first_col \<lparr>first_row = 0, last_row = 1, first_col = 0, last_col = 0, val = 1 / 2\<rparr>
     < length scenario_assets"
proof -
  have l: "load_adjustments_from_sqlite 999 scenario_db scenario_dates scenario_assets
       True True True ''all'' = Some (Inr scenario_result)"
    by (simp add: scenario_returns)
  have r: "[1 \<mapsto> [\<lparr>first_row = 0, last_row = 1, first_col = 0, last_col = 0, val = 1 / (2::real)\<rparr>]] 1 =
      Some [\<lparr>first_row = 0, last_row = 1, first_col = 0, last_col = 0, val = 1 / 2\<rparr>]"
    by simp
  from indices_within_axes [OF l scenario_volume_bucket r] l scenario_volume_bucket
  show ?thesis by simp
qed

section \<open>The adjustment type selects the keys of the result\<close>

text \<open>With the adjustment type \<open>volume\<close> the load reads the splits table only.\<close>

lemma load_volume:
  "load_adjustments_from_sqlite max_in db dates assets inc_s inc_m inc_d ''volume'' =
     (if dates = [] then Some (Inl IndexError)
      else
        (case c_int (hd dates) of
           Inl e \<Rightarrow> Some (Inl e)
         | Inr start_date \<Rightarrow>
        (case c_int (last dates) of
           Inl e \<Rightarrow> Some (Inl e)
         | Inr end_date \<Rightarrow>
        (case fetch_loop max_in (splits db) start_date end_date
                (filter (\<lambda>a. a \<in> (if inc_s
                                     then fst ` set (in_range start_date end_date (splits db))
                                     else {})) assets) [] [] of
           None \<Rightarrow> None
         | Some (ss, issued) \<Rightarrow>
             Some (assemble dates assets start_date False True ss [] [])))))"
  unfolding load_adjustments_from_sqlite_def Let_def adjustments_def get_split_sids_def
  by (simp add: fetch_loop_Nil get_sids_in_range split: sum.splits option.splits)

lemma load_volume_splits_only:
  assumes "splits db' = splits db"
  shows "load_adjustments_from_sqlite max_in db' dates assets inc_s inc_m' inc_d' ''volume'' =
         load_adjustments_from_sqlite max_in db dates assets inc_s inc_m inc_d ''volume''"
  by (simp only: load_volume assms)

lemma load_keys:
  assumes "load_adjustments_from_sqlite max_in db dates assets inc_s inc_m inc_d ty = Some (Inr res)"
  shows "(res ''price'' \<noteq> None \<longleftrightarrow> ty = ''price'' \<or> ty = ''all'') \<and>
         (res ''volume'' \<noteq> None \<longleftrightarrow> ty = ''volume'' \<or> ty = ''all'') \<and>
         dom res \<subseteq> {''price'', ''volume''}"
proof -
  from load_Inr [OF assms] obtain ss ms ds where
    asm: "assemble dates assets (hd dates) (ty = ''all'' \<or> ty = ''price'')
            (ty = ''all'' \<or> ty = ''volume'') ss ms ds = Inr res"
    by blast
  note A = assemble_Inr [OF asm]
  have p: "res ''price'' \<noteq> None \<longleftrightarrow> ty = ''price'' \<or> ty = ''all''"
  proof (cases "ty = ''all'' \<or> ty = ''price''")
    case True
    with A(1) show ?thesis by (simp only: if_True) blast
  next
    case False
    with A(1) show ?thesis by (simp only: if_False) blast
  qed
  have v: "res ''volume'' \<noteq> None \<longleftrightarrow> ty = ''volume'' \<or> ty = ''all''"
  proof (cases "ty = ''all'' \<or> ty = ''volume''")
    case True
    with A(2) show ?thesis by (simp only: if_True) blast
  next
    case False
    with A(2) show ?thesis by (simp only: if_False) blast
  qed
  have d: "dom res \<subseteq> {''price'', ''volume''}"
  proof
    fix x assume "x \<in> dom res"
    then have "res x \<noteq> None" by (simp add: dom_def)
    with A(3) [of x] have "\<not> (x \<noteq> ''price'' \<and> x \<noteq> ''volume'')" by blast
    then show "x \<in> {''price'', ''volume''}" by blast
  qed
  from p v d show ?thesis by (intro conjI)
qed

lemma scenario_dividend_volume:
  "load_adjustments_from_sqlite 999 scenario_dividend_db scenario_dates scenario_assets
       True True True ''volume'' = Some (Inr [''volume'' \<mapsto> Map.empty])"
  by (simp add: load_volume scenario_dividend_db_def scenario_dates_def c_int_def in_range_def
      fetch_loop_Nil assemble_def)

section \<open>Only the records of the date range count\<close>

lemma load_invalid_type:
  "\<not> (ty = ''price'' \<or> ty = ''volume'' \<or> ty = ''all'') \<Longrightarrow>
   load_adjustments_from_sqlite max_in db dates assets inc_s inc_m inc_d ty = Some (Inl ValueError)"
  unfolding load_adjustments_from_sqlite_def by simp

lemma load_no_dates:
  "ty = ''price'' \<or> ty = ''volume'' \<or> ty = ''all'' \<Longrightarrow> dates = [] \<Longrightarrow>
   load_adjustments_from_sqlite max_in db dates assets inc_s inc_m inc_d ty = Some (Inl IndexError)"
  unfolding load_adjustments_from_sqlite_def Let_def by simp

lemma load_start_overflow:
  "ty = ''price'' \<or> ty = ''volume'' \<or> ty = ''all'' \<Longrightarrow> dates \<noteq> [] \<Longrightarrow>
   c_int (hd dates) = Inl err \<Longrightarrow>
   load_adjustments_from_sqlite max_in db dates assets inc_s inc_m inc_d ty = Some (Inl err)"
  unfolding load_adjustments_from_sqlite_def Let_def by simp

lemma load_end_overflow:
  "ty = ''price'' \<or> ty = ''volume'' \<or> ty = ''all'' \<Longrightarrow> dates \<noteq> [] \<Longrightarrow>
   c_int (hd dates) = Inr x \<Longrightarrow> c_int (last dates) = Inl err \<Longrightarrow>
   load_adjustments_from_sqlite max_in db dates assets inc_s inc_m inc_d ty = Some (Inl err)"
  unfolding load_adjustments_from_sqlite_def Let_def by simp

lemma fetch_loop_in_range:
  assumes "in_range s e rows' = in_range s e rows"
  shows "fetch_loop max_in rows' s e to_query results issued =
         fetch_loop max_in rows s e to_query results issued"
proof (rule fetch_loop_cong)
  fix t
  have "adj_query rows' t s e = adj_query (in_range s e rows') t s e"
    by (simp only: adj_query_in_range)
  also have "\<dots> = adj_query rows t s e"
    by (simp only: assms adj_query_in_range)
  finally show "adj_query rows' t s e = adj_query rows t s e" .
qed

lemma adjustments_in_range:
  assumes "in_range s e (splits db') = in_range s e (splits db)"
    and "in_range s e (mergers db') = in_range s e (mergers db)"
    and "in_range s e (dividends db') = in_range s e (dividends db)"
  shows "adjustments max_in db' split_sids merger_sids dividends_sids s e assets =
         adjustments max_in db split_sids merger_sids dividends_sids s e assets"
  unfolding adjustments_def
  by (simp only: fetch_loop_in_range [OF assms(1)] fetch_loop_in_range [OF assms(2)]
      fetch_loop_in_range [OF assms(3)])

lemma sids_in_range:
  assumes "in_range s e (table_rows db' tn) = in_range s e (table_rows db tn)"
  shows "get_sids_from_table db' tn s e = get_sids_from_table db tn s e"
  by (simp only: get_sids_in_range assms)

lemma load_in_range:
  assumes s: "in_range (hd dates) (last dates) (splits db') =
              in_range (hd dates) (last dates) (splits db)"
    and m: "in_range (hd dates) (last dates) (mergers db') =
            in_range (hd dates) (last dates) (mergers db)"
    and d: "in_range (hd dates) (last dates) (dividends db') =
            in_range (hd dates) (last dates) (dividends db)"
  shows "load_adjustments_from_sqlite max_in db' dates assets inc_s inc_m inc_d ty =
         load_adjustments_from_sqlite max_in db dates assets inc_s inc_m inc_d ty"
proof (cases "ty = ''price'' \<or> ty = ''volume'' \<or> ty = ''all''")
  case False
  then show ?thesis by (simp add: load_invalid_type)
next
  case valid: True
  show ?thesis
  proof (cases "dates = []")
    case True
    with valid show ?thesis by (simp add: load_no_dates)
  next
    case ne: False
    show ?thesis
    proof (cases "c_int (hd dates)")
      case (Inl err)
      with valid ne show ?thesis by (simp add: load_start_overflow)
    next
      case (Inr x)
      with c_int_Inr [OF Inr] have h: "c_int (hd dates) = Inr (hd dates)" by simp
      show ?thesis
      proof (cases "c_int (last dates)")
        case (Inl err)
        with valid ne h show ?thesis by (simp add: load_end_overflow)
      next
        case (Inr y)
        with c_int_Inr [OF Inr] have l: "c_int (last dates) = Inr (last dates)" by simp
        have ss: "get_split_sids db' (hd dates) (last dates) =
                  get_split_sids db (hd dates) (last dates)"
          unfolding get_split_sids_def by (rule sids_in_range) (simp only: table_rows.simps s)
        have ms: "get_merger_sids db' (hd dates) (last dates) =
                  get_merger_sids db (hd dates) (last dates)"
          unfolding get_merger_sids_def by (rule sids_in_range) (simp only: table_rows.simps m)
        have ds: "get_dividend_sids db' (hd dates) (last dates) =
                  get_dividend_sids db (hd dates) (last dates)"
          unfolding get_dividend_sids_def by (rule sids_in_range) (simp only: table_rows.simps d)
        show ?thesis
          by (simp only: load_unfold [OF valid ne h l] ss ms ds adjustments_in_range [OF s m d])
      qed
    qed
  qed
qed

lemma skipped_before_start:
  assumes "c_int eff = Inr eff" "eff < start_date"
  shows "split_step dates assets start_date p v st (sid, ratio, eff) = Inr st"
    and "price_step dates assets start_date st (sid, ratio, eff) = Inr st"
  using assms by (simp_all add: split_step_def price_step_def)

text \<open>
  Claim C7. The outcome of a load is the same for any two stores whose three tables hold
  the same rows within the closed range from the first to the last axis date: a record
  whose effective date lies before the first or after the last axis date contributes
  nothing to either schedule. And in both record loops a record whose effective date is
  strictly before \<open>start_date\<close> leaves all four dictionaries as they are.
\<close>

theorem range_exclusivity:
  "(in_range (hd dates) (last dates) (splits db') = in_range (hd dates) (last dates) (splits db) \<and>
    in_range (hd dates) (last dates) (mergers db') = in_range (hd dates) (last dates) (mergers db) \<and>
    in_range (hd dates) (last dates) (dividends db') =
      in_range (hd dates) (last dates) (dividends db) \<longrightarrow>
    load_adjustments_from_sqlite max_in db' dates assets inc_s inc_m inc_d ty =
    load_adjustments_from_sqlite max_in db dates assets inc_s inc_m inc_d ty) \<and>
   (c_int eff = Inr eff \<and> eff < start_date \<longrightarrow>
    split_step dates assets start_date p v st (sid, ratio, eff) = Inr st \<and>
    price_step dates assets start_date st (sid, ratio, eff) = Inr st)"
proof (rule conjI)
  show "in_range (hd dates) (last dates) (splits db') = in_range (hd dates) (last dates) (splits db) \<and>
    in_range (hd dates) (last dates) (mergers db') = in_range (hd dates) (last dates) (mergers db) \<and>
    in_range (hd dates) (last dates) (dividends db') =
      in_range (hd dates) (last dates) (dividends db) \<longrightarrow>
    load_adjustments_from_sqlite max_in db' dates assets inc_s inc_m inc_d ty =
    load_adjustments_from_sqlite max_in db dates assets inc_s inc_m inc_d ty"
  proof (rule impI, elim conjE)
    assume "in_range (hd dates) (last dates) (splits db') =
              in_range (hd dates) (last dates) (splits db)"
      and "in_range (hd dates) (last dates) (mergers db') =
            in_range (hd dates) (last dates) (mergers db)"
      and "in_range (hd dates) (last dates) (dividends db') =
            in_range (hd dates) (last dates) (dividends db)"
    then show "load_adjustments_from_sqlite max_in db' dates assets inc_s inc_m inc_d ty =
        load_adjustments_from_sqlite max_in db dates assets inc_s inc_m inc_d ty"
      by (rule load_in_range)
  qed
  show "c_int eff = Inr eff \<and> eff < start_date \<longrightarrow>
    split_step dates assets start_date p v st (sid, ratio, eff) = Inr st \<and>
    price_step dates assets start_date st (sid, ratio, eff) = Inr st"
  proof (rule impI, elim conjE, rule conjI)
    assume a: "c_int eff = Inr eff" "eff < start_date"
    from a show "split_step dates assets start_date p v st (sid, ratio, eff) = Inr st"
      by (rule skipped_before_start(1))
    from a show "price_step dates assets start_date st (sid, ratio, eff) = Inr st"
      by (rule skipped_before_start(2))
  qed
qed

theorem range_exclusivity_witness:
  "in_range (hd scenario_dates) (last scenario_dates) (splits scenario_wider_db) =
     in_range (hd scenario_dates) (last scenario_dates) (splits scenario_db) \<and>
   load_adjustments_from_sqlite 999 scenario_wider_db scenario_dates scenario_assets
       True True True ''all'' = Some (Inr scenario_result) \<and>
   c_int (- 86400) = Inr (- 86400) \<and>
   split_step scenario_dates scenario_assets 0 True True
     \<lparr>price_adjustments = Map.empty, volume_adjustments = Map.empty, asset_ixs = Map.empty,
      date_ixs = Map.empty\<rparr> (101, 3, - 86400) =
     Inr \<lparr>price_adjustments = Map.empty, volume_adjustments = Map.empty, asset_ixs = Map.empty,
          date_ixs = Map.empty\<rparr>"
proof -
  have s: "in_range (hd scenario_dates) (last scenario_dates) (splits scenario_wider_db) =
     in_range (hd scenario_dates) (last scenario_dates) (splits scenario_db)"
    by (simp add: in_range_def scenario_dates_def scenario_wider_db_def scenario_db_def)
  have m: "in_range (hd scenario_dates) (last scenario_dates) (mergers scenario_wider_db) =
     in_range (hd scenario_dates) (last scenario_dates) (mergers scenario_db)"
    by (simp add: in_range_def scenario_wider_db_def scenario_db_def)
  have d: "in_range (hd scenario_dates) (last scenario_dates) (dividends scenario_wider_db) =
     in_range (hd scenario_dates) (last scenario_dates) (dividends scenario_db)"
    by (simp add: in_range_def scenario_wider_db_def scenario_db_def)
  have c: "c_int (- 86400) = Inr (- 86400)"
    by (simp add: c_int_def)
  have lt: "(- 86400 :: int) < 0"
    by simp
  note t = range_exclusivity [where dates = scenario_dates and db' = scenario_wider_db
      and db = scenario_db and max_in = 999 and assets = scenario_assets and inc_s = True
      and inc_m = True and inc_d = True and ty = "''all''" and eff = "- 86400"
      and start_date = 0 and p = True and v = True and sid = 101 and ratio = 3
      and st = "\<lparr>price_adjustments = Map.empty, volume_adjustments = Map.empty,
                  asset_ixs = Map.empty, date_ixs = Map.empty\<rparr>"]
  from t [THEN conjunct1, rule_format, OF conjI [OF s conjI [OF m d]]]
    t [THEN conjunct2, rule_format, OF conjI [OF c lt], THEN conjunct1]
    s c scenario_returns [of 999]
  show ?thesis by simp
qed

section \<open>A split with ratio zero\<close>

lemma get_loc_distinct:
  assumes "distinct assets" "sid \<in> set assets"
  shows "\<exists>ix. get_loc assets sid = Inr ix"
proof -
  let ?xs = "filter (\<lambda>i. assets ! i = sid) [0..<length assets]"
  from assms(2) obtain i where i: "i < length assets" "assets ! i = sid"
    by (auto simp: in_set_conv_nth)
  have "set ?xs = {i}"
    using i assms(1) by (auto simp: nth_eq_iff_index_eq)
  moreover have "distinct ?xs" by simp
  ultimately have "length ?xs = 1"
    by (metis distinct_card card.empty card_insert_disjoint empty_iff finite.emptyI One_nat_def)
  then obtain x where "?xs = [x]"
    by (cases ?xs) auto
  then show ?thesis by (simp add: get_loc_def)
qed

lemma lookup_asset_total:
  assumes "asset_cache_ok assets c" "get_loc assets sid = Inr ix"
  shows "\<exists>c'. lookup_asset c assets sid = Inr (ix, c') \<and> asset_cache_ok assets c'"
proof -
  from lookup_asset_found [OF assms] obtain c' where l: "lookup_asset c assets sid = Inr (ix, c')"
    by blast
  from lookup_asset_Inr [OF assms(1) l] l show ?thesis by blast
qed

text \<open>The body of the splits loop raises exactly for a retained record with ratio zero
  when volumes are requested, once the date fits and the asset is on the axis.\<close>

lemma split_step_total:
  assumes a: "asset_cache_ok assets (asset_ixs st)" and ce: "c_int eff = Inr eff"
    and g: "get_loc assets sid = Inr ix"
  shows "(start \<le> eff \<and> v \<and> ratio = 0 \<longrightarrow>
            split_step dates assets start p v st (sid, ratio, eff) = Inl ZeroDivisionError) \<and>
         (\<not> (start \<le> eff \<and> v \<and> ratio = 0) \<longrightarrow>
            (\<exists>st'. split_step dates assets start p v st (sid, ratio, eff) = Inr st' \<and>
                   asset_cache_ok assets (asset_ixs st')))"
proof (cases "eff < start")
  case True
  with ce a show ?thesis by (simp add: split_step_def)
next
  case False
  obtain date_loc dixs where l: "lookup_dt (date_ixs st) eff dates = (date_loc, dixs)"
    by (cases "lookup_dt (date_ixs st) eff dates")
  from lookup_asset_total [OF a g] obtain aixs where
    la: "lookup_asset (asset_ixs st) assets sid = Inr (ix, aixs)"
    and a': "asset_cache_ok assets aixs"
    by blast
  show ?thesis
  proof (cases "v \<and> ratio = 0")
    case True
    with False ce l la show ?thesis by (simp add: split_step_def Let_def)
  next
    case nz: False
    from False ce l la nz obtain st' where
      "split_step dates assets start p v st (sid, ratio, eff) = Inr st'" "asset_ixs st' = aixs"
      by (cases v; cases p) (auto simp: split_step_def Let_def)
    with a' nz show ?thesis by auto
  qed
qed

lemma price_step_total:
  assumes a: "asset_cache_ok assets (asset_ixs st)" and ce: "c_int eff = Inr eff"
    and g: "get_loc assets sid = Inr ix"
  shows "\<exists>st'. price_step dates assets start st (sid, ratio, eff) = Inr st' \<and>
               asset_cache_ok assets (asset_ixs st')"
proof (cases "eff < start")
  case True
  with ce a show ?thesis by (simp add: price_step_def)
next
  case False
  obtain date_loc dixs where l: "lookup_dt (date_ixs st) eff dates = (date_loc, dixs)"
    by (cases "lookup_dt (date_ixs st) eff dates")
  from lookup_asset_total [OF a g] obtain aixs where
    la: "lookup_asset (asset_ixs st) assets sid = Inr (ix, aixs)"
    and a': "asset_cache_ok assets aixs"
    by blast
  from False ce l la a' show ?thesis by (simp add: price_step_def)
qed

lemma splits_loop_total:
  assumes "\<forall>(sid, ratio, eff)\<in>set recs. c_int eff = Inr eff \<and> (\<exists>ix. get_loc assets sid = Inr ix)"
    and "asset_cache_ok assets (asset_ixs st)"
  shows "if v \<and> (\<exists>(sid, ratio, eff)\<in>set recs. start \<le> eff \<and> ratio = 0)
         then for_each (split_step dates assets start p v) st recs = Inl ZeroDivisionError
         else \<exists>st'. for_each (split_step dates assets start p v) st recs = Inr st' \<and>
                    asset_cache_ok assets (asset_ixs st')"
  using assms
proof (induction recs arbitrary: st)
  case Nil
  then show ?case by simp
next
  case (Cons rec recs)
  obtain sid ratio eff where rec: "rec = (sid, ratio, eff)" by (cases rec)
  from Cons.prems(1) rec obtain ix where ce: "c_int eff = Inr eff"
    and g: "get_loc assets sid = Inr ix" by auto
  from Cons.prems(1) have rest: "\<forall>(sid, ratio, eff)\<in>set recs.
      c_int eff = Inr eff \<and> (\<exists>ix. get_loc assets sid = Inr ix)" by simp
  note step = split_step_total [OF Cons.prems(2) ce g, of start v ratio dates p]
  show ?case
  proof (cases "start \<le> eff \<and> v \<and> ratio = 0")
    case True
    with step have "split_step dates assets start p v st (sid, ratio, eff) = Inl ZeroDivisionError"
      by blast
    moreover from True have "v \<and> (\<exists>(sid, ratio, eff)\<in>set (rec # recs). start \<le> eff \<and> ratio = 0)"
      by (auto simp: rec)
    ultimately show ?thesis by (simp add: rec)
  next
    case False
    with step obtain st1 where s1: "split_step dates assets start p v st (sid, ratio, eff) = Inr st1"
      and a1: "asset_cache_ok assets (asset_ixs st1)" by blast
    have same: "(v \<and> (\<exists>(sid, ratio, eff)\<in>set (rec # recs). start \<le> eff \<and> ratio = 0)) =
                (v \<and> (\<exists>(sid, ratio, eff)\<in>set recs. start \<le> eff \<and> ratio = 0))"
      using False by (auto simp: rec)
    have run: "for_each (split_step dates assets start p v) st (rec # recs) =
               for_each (split_step dates assets start p v) st1 recs"
      using s1 by (simp add: rec)
    from Cons.IH [OF rest a1] show ?thesis
      unfolding same run .
  qed
qed

lemma price_loop_total:
  assumes "\<forall>(sid, ratio, eff)\<in>set recs. c_int eff = Inr eff \<and> (\<exists>ix. get_loc assets sid = Inr ix)"
    and "asset_cache_ok assets (asset_ixs st)"
  shows "\<exists>st'. for_each (price_step dates assets start) st recs = Inr st' \<and>
               asset_cache_ok assets (asset_ixs st')"
  using assms
proof (induction recs arbitrary: st)
  case Nil
  then show ?case by simp
next
  case (Cons rec recs)
  obtain sid ratio eff where rec: "rec = (sid, ratio, eff)" by (cases rec)
  from Cons.prems(1) rec obtain ix where ce: "c_int eff = Inr eff"
    and g: "get_loc assets sid = Inr ix" by auto
  from Cons.prems(1) have rest: "\<forall>(sid, ratio, eff)\<in>set recs.
      c_int eff = Inr eff \<and> (\<exists>ix. get_loc assets sid = Inr ix)" by simp
  from price_step_total [OF Cons.prems(2) ce g, of dates start ratio] obtain st1 where
    s1: "price_step dates assets start st (sid, ratio, eff) = Inr st1"
    and a1: "asset_cache_ok assets (asset_ixs st1)" by blast
  from Cons.IH [OF rest a1] s1 show ?case by (simp add: rec)
qed

lemma assemble_total:
  assumes c0: "prepopulate Map.empty 0 dates = Inr c0"
    and ss: "\<forall>(sid, ratio, eff)\<in>set ss. c_int eff = Inr eff \<and> (\<exists>ix. get_loc assets sid = Inr ix)"
    and ms: "\<forall>(sid, ratio, eff)\<in>set (ms @ ds).
               c_int eff = Inr eff \<and> (\<exists>ix. get_loc assets sid = Inr ix)"
  shows "if v \<and> (\<exists>(sid, ratio, eff)\<in>set ss. start \<le> eff \<and> ratio = 0)
         then assemble dates assets start p v ss ms ds = Inl ZeroDivisionError
         else \<exists>res. assemble dates assets start p v ss ms ds = Inr res"
proof -
  let ?st0 = "\<lparr>price_adjustments = Map.empty, volume_adjustments = Map.empty,
               asset_ixs = Map.empty, date_ixs = c0\<rparr>"
  have a0: "asset_cache_ok assets (asset_ixs ?st0)"
    by (simp add: asset_cache_ok_def)
  note loop = splits_loop_total [OF ss a0, of v start dates p]
  show ?thesis
  proof (cases "v \<and> (\<exists>(sid, ratio, eff)\<in>set ss. start \<le> eff \<and> ratio = 0)")
    case True
    have "for_each (split_step dates assets start p v) ?st0 ss = Inl ZeroDivisionError"
      using loop by (subst (asm) if_P [OF True])
    with c0 have "assemble dates assets start p v ss ms ds = Inl ZeroDivisionError"
      by (simp add: assemble_def)
    then show ?thesis by (subst if_P [OF True])
  next
    case False
    have "\<exists>st'. for_each (split_step dates assets start p v) ?st0 ss = Inr st' \<and>
                 asset_cache_ok assets (asset_ixs st')"
      using loop by (subst (asm) if_not_P [OF False])
    then obtain st1 where l1: "for_each (split_step dates assets start p v) ?st0 ss = Inr st1"
      and a1: "asset_cache_ok assets (asset_ixs st1)"
      by blast
    from price_loop_total [OF ms a1, of dates start] obtain st2 where
      l2: "for_each (price_step dates assets start) st1 (ms @ ds) = Inr st2"
      by blast
    from c0 l1 l2 have "\<exists>res. assemble dates assets start p v ss ms ds = Inr res"
      by (simp add: assemble_def Let_def)
    then show ?thesis by (subst if_not_P [OF False])
  qed
qed

lemma c_int_Inl: "c_int x = Inl err \<Longrightarrow> err = OverflowError"
  by (simp add: c_int_def split: if_splits)

lemma get_loc_Inl: "get_loc assets sid = Inl err \<Longrightarrow> err = KeyError \<or> err = TypeError"
  by (auto simp: get_loc_def split: list.splits)

lemma lookup_asset_Inl:
  "lookup_asset c assets sid = Inl err \<Longrightarrow> err = KeyError \<or> err = TypeError"
  by (auto simp: lookup_asset_def split: option.splits sum.splits dest: get_loc_Inl)

text \<open>The division is the only source of \<open>ZeroDivisionError\<close> in the loop body.\<close>

lemma split_step_nonzero:
  assumes "ratio \<noteq> 0"
  shows "split_step dates assets start p v st (sid, ratio, eff) \<noteq> Inl ZeroDivisionError"
proof
  assume z: "split_step dates assets start p v st (sid, ratio, eff) = Inl ZeroDivisionError"
  show False
  proof (cases "c_int eff")
    case (Inl err)
    with z c_int_Inl [OF Inl] show False by (simp add: split_step_def)
  next
    case (Inr eff_date)
    show False
    proof (cases "eff_date < start")
      case True
      with z Inr show False by (simp add: split_step_def)
    next
      case False
      obtain date_loc dixs where l: "lookup_dt (date_ixs st) eff_date dates = (date_loc, dixs)"
        by (cases "lookup_dt (date_ixs st) eff_date dates")
      show False
      proof (cases "lookup_asset (asset_ixs st) assets sid")
        case (Inl err)
        with z \<open>c_int eff = Inr eff_date\<close> False l lookup_asset_Inl [OF Inl] show False
          by (auto simp: split_step_def)
      next
        case (Inr r)
        obtain ix aixs where r: "r = (ix, aixs)" by (cases r)
        with z \<open>c_int eff = Inr eff_date\<close> False l Inr assms show False
          by (simp add: split_step_def Let_def split: if_splits)
      qed
    qed
  qed
qed

lemma in_range_iff:
  "(sid, ratio, eff) \<in> set (in_range s e rows) \<longleftrightarrow>
     (sid, ratio, eff) \<in> set rows \<and> s \<le> eff \<and> eff \<le> e"
  by (auto simp: in_range_def)

text \<open>
  On a well-formed request (a valid type, a non-empty axis of dates that fit a C \<open>int\<close>,
  distinct assets, a positive limit) the load raises \<open>ZeroDivisionError\<close> exactly when
  volumes are requested, the splits are included and the range holds a split of an axis
  asset with ratio zero, and returns schedules otherwise.
\<close>

lemma load_outcome:
  assumes pos: "0 < max_in" and valid: "ty = ''price'' \<or> ty = ''volume'' \<or> ty = ''all''"
    and ne: "dates \<noteq> []"
    and fit: "\<forall>d\<in>set dates. c_int d = Inr d" and dist: "distinct assets"
  shows "if (ty = ''all'' \<or> ty = ''volume'') \<and> inc_s \<and>
            (\<exists>sid eff. (sid, 0, eff) \<in> set (splits db) \<and> sid \<in> set assets \<and>
                       hd dates \<le> eff \<and> eff \<le> last dates)
         then load_adjustments_from_sqlite max_in db dates assets inc_s inc_m inc_d ty =
                Some (Inl ZeroDivisionError)
         else \<exists>res. load_adjustments_from_sqlite max_in db dates assets inc_s inc_m inc_d ty =
                Some (Inr res)"
proof -
  let ?s = "hd dates" and ?e = "last dates"
  let ?p = "ty = ''all'' \<or> ty = ''price''" and ?v = "ty = ''all'' \<or> ty = ''volume''"
  from ne fit have h: "c_int ?s = Inr ?s" and l: "c_int ?e = Inr ?e" by simp_all
  from adjustments_returns [OF pos] obtain ss ms ds issued where
    a: "adjustments max_in db
             (if inc_s then get_split_sids db ?s ?e else {})
             (if inc_m \<and> ?p then get_merger_sids db ?s ?e else {})
             (if inc_d \<and> ?p then get_dividend_sids db ?s ?e else {})
             ?s ?e assets = Some ((ss, ms, ds), issued)"
    by blast
  have load: "load_adjustments_from_sqlite max_in db dates assets inc_s inc_m inc_d ty =
      Some (assemble dates assets ?s ?p ?v ss ms ds)"
    by (simp only: load_unfold [OF valid ne h l] a option.case prod.case)
  note sets = adjustments_Some [OF a]
  have ss: "set ss = (if inc_s then {x \<in> set (in_range ?s ?e (splits db)). fst x \<in> set assets} else {})"
    unfolding sets(1) get_split_sids_def
    using set_fetched [of db Splits inc_s ?s ?e assets] by (simp only: table_rows.simps)
  have ms: "set ms \<subseteq> {x \<in> set (in_range ?s ?e (mergers db)). fst x \<in> set assets}"
    unfolding sets(2) get_merger_sids_def
    using set_fetched [of db Mergers "inc_m \<and> ?p" ?s ?e assets]
    by (simp only: table_rows.simps split: if_splits) simp_all
  have ds: "set ds \<subseteq> {x \<in> set (in_range ?s ?e (dividends db)). fst x \<in> set assets}"
    unfolding sets(3) get_dividend_sids_def
    using set_fetched [of db Dividends "inc_d \<and> ?p" ?s ?e assets]
    by (simp only: table_rows.simps split: if_splits) simp_all
  have ok: "c_int eff = Inr eff \<and> (\<exists>ix. get_loc assets sid = Inr ix)"
    if "(sid, ratio, eff) \<in> set (in_range ?s ?e rows)" "sid \<in> set assets" for sid ratio eff rows
  proof -
    from that(1) have "?s \<le> eff" "eff \<le> ?e" by (simp_all add: in_range_iff)
    with c_int_Inr [OF h] c_int_Inr [OF l] have "c_int eff = Inr eff"
      by (simp add: c_int_def)
    with get_loc_distinct [OF dist that(2)] show ?thesis by blast
  qed
  have ss_ok: "\<forall>(sid, ratio, eff)\<in>set ss. c_int eff = Inr eff \<and> (\<exists>ix. get_loc assets sid = Inr ix)"
  proof (intro ballI)
    fix x assume "x \<in> set ss"
    with ss have "x \<in> set (in_range ?s ?e (splits db)) \<and> fst x \<in> set assets"
      by (cases inc_s) simp_all
    with ok [of "fst x" "fst (snd x)" "snd (snd x)" "splits db"]
    show "case x of (sid, ratio, eff) \<Rightarrow> c_int eff = Inr eff \<and> (\<exists>ix. get_loc assets sid = Inr ix)"
      by (cases x) simp
  qed
  have ms_ok: "\<forall>(sid, ratio, eff)\<in>set (ms @ ds).
      c_int eff = Inr eff \<and> (\<exists>ix. get_loc assets sid = Inr ix)"
  proof (intro ballI)
    fix x assume "x \<in> set (ms @ ds)"
    with ms ds have "(x \<in> set (in_range ?s ?e (mergers db)) \<or> x \<in> set (in_range ?s ?e (dividends db)))
        \<and> fst x \<in> set assets"
      by auto
    with ok [of "fst x" "fst (snd x)" "snd (snd x)" "mergers db"]
      ok [of "fst x" "fst (snd x)" "snd (snd x)" "dividends db"]
    show "case x of (sid, ratio, eff) \<Rightarrow> c_int eff = Inr eff \<and> (\<exists>ix. get_loc assets sid = Inr ix)"
      by (cases x) auto
  qed
  from prepopulate_succeeds [OF fit] obtain c0 where c0: "prepopulate Map.empty 0 dates = Inr c0"
    by blast
  note asm = assemble_total [OF c0 ss_ok ms_ok, of ?v ?s ?p]
  have same: "(?v \<and> (\<exists>(sid, ratio, eff)\<in>set ss. ?s \<le> eff \<and> ratio = 0)) =
      (?v \<and> inc_s \<and> (\<exists>sid eff. (sid, 0, eff) \<in> set (splits db) \<and> sid \<in> set assets \<and>
                          ?s \<le> eff \<and> eff \<le> ?e))"
  proof (cases inc_s)
    case True
    with ss have "set ss = {x \<in> set (in_range ?s ?e (splits db)). fst x \<in> set assets}" by simp
    then have "(\<exists>(sid, ratio, eff)\<in>set ss. ?s \<le> eff \<and> ratio = 0) =
        (\<exists>sid eff. (sid, 0, eff) \<in> set (splits db) \<and> sid \<in> set assets \<and> ?s \<le> eff \<and> eff \<le> ?e)"
      by (auto simp: in_range_iff) 
    with True show ?thesis by simp
  next
    case False
    with ss show ?thesis by simp
  qed
  from asm show ?thesis
    unfolding same load by (simp only: option.inject)
qed

lemma load_zero_ratio:
  assumes pos: "0 < max_in" and ty: "ty = ''volume'' \<or> ty = ''all''" and ne: "dates \<noteq> []"
    and fit: "\<forall>d\<in>set dates. c_int d = Inr d" and dist: "distinct assets"
  shows "if inc_s \<and> (\<exists>sid eff. (sid, 0, eff) \<in> set (splits db) \<and> sid \<in> set assets \<and>
                          hd dates \<le> eff \<and> eff \<le> last dates)
         then load_adjustments_from_sqlite max_in db dates assets inc_s inc_m inc_d ty =
                Some (Inl ZeroDivisionError)
         else \<exists>res. load_adjustments_from_sqlite max_in db dates assets inc_s inc_m inc_d ty =
                Some (Inr res)"
proof -
  from ty have valid: "ty = ''price'' \<or> ty = ''volume'' \<or> ty = ''all''" by blast
  from ty have v: "(ty = ''all'' \<or> ty = ''volume'') = True" by blast
  from load_outcome [OF pos valid ne fit dist, of inc_s db inc_m inc_d] show ?thesis
    unfolding v by (simp only: simp_thms)
qed

text \<open>
  Claim C10. The body of the splits loop never raises \<open>ZeroDivisionError\<close> for a record
  whose ratio is not zero. And on a well-formed request for volumes (the adjustment type
  \<open>volume\<close> or \<open>all\<close>, a positive query limit, a non-empty axis of dates that fit a C
  \<open>int\<close>, distinct assets), the load fails with \<open>ZeroDivisionError\<close> if the splits are
  included and the date range holds a split of an axis asset with ratio zero, and returns
  schedules otherwise.
\<close>

theorem split_ratio_zero:
  assumes "0 < max_in" and "ty = ''volume'' \<or> ty = ''all''" and "dates \<noteq> []"
    and "\<forall>d\<in>set dates. c_int d = Inr d" and "distinct assets"
  shows "(ratio \<noteq> 0 \<longrightarrow>
            split_step dates assets start p v st (sid, ratio, eff) \<noteq> Inl ZeroDivisionError) \<and>
         (if inc_s \<and> (\<exists>sid eff. (sid, 0, eff) \<in> set (splits db) \<and> sid \<in> set assets \<and>
                          hd dates \<le> eff \<and> eff \<le> last dates)
          then load_adjustments_from_sqlite max_in db dates assets inc_s inc_m inc_d ty =
                 Some (Inl ZeroDivisionError)
          else \<exists>res. load_adjustments_from_sqlite max_in db dates assets inc_s inc_m inc_d ty =
                 Some (Inr res))"
proof (rule conjI)
  show "ratio \<noteq> 0 \<longrightarrow>
      split_step dates assets start p v st (sid, ratio, eff) \<noteq> Inl ZeroDivisionError"
    by (rule impI) (rule split_step_nonzero)
  show "if inc_s \<and> (\<exists>sid eff. (sid, 0, eff) \<in> set (splits db) \<and> sid \<in> set assets \<and>
                          hd dates \<le> eff \<and> eff \<le> last dates)
          then load_adjustments_from_sqlite max_in db dates assets inc_s inc_m inc_d ty =
                 Some (Inl ZeroDivisionError)
          else \<exists>res. load_adjustments_from_sqlite max_in db dates assets inc_s inc_m inc_d ty =
                 Some (Inr res)"
    by (rule load_zero_ratio [OF assms])
qed

theorem split_ratio_zero_witness:
  "(0::nat) < 999 \<and> scenario_dates \<noteq> [] \<and> distinct scenario_assets \<and>
   load_adjustments_from_sqlite 999 scenario_zero_db scenario_dates scenario_assets
       True True True ''all'' = Some (Inl ZeroDivisionError) \<and>
   (\<exists>res. load_adjustments_from_sqlite 999 scenario_db scenario_dates scenario_assets
       True True True ''all'' = Some (Inr res))"
proof -
  have pos: "(0::nat) < 999" by simp
  have ty: "''all'' = ''volume'' \<or> ''all'' = ''all''" by simp
  have ne: "scenario_dates \<noteq> []" by (simp add: scenario_dates_def)
  have fit: "\<forall>d\<in>set scenario_dates. c_int d = Inr d"
    by (simp add: scenario_dates_def c_int_def)
  have dist: "distinct scenario_assets" by (simp add: scenario_assets_def)
  have zero: "True \<and> (\<exists>sid eff. (sid, 0, eff) \<in> set (splits scenario_zero_db) \<and>
      sid \<in> set scenario_assets \<and> hd scenario_dates \<le> eff \<and> eff \<le> last scenario_dates)"
    by (simp add: scenario_zero_db_def scenario_assets_def scenario_dates_def)
  have none: "\<not> (True \<and> (\<exists>sid eff. (sid, 0, eff) \<in> set (splits scenario_db) \<and>
      sid \<in> set scenario_assets \<and> hd scenario_dates \<le> eff \<and> eff \<le> last scenario_dates))"
    by (simp add: scenario_db_def)
  from split_ratio_zero [where inc_s = True and db = scenario_zero_db and inc_m = True
      and inc_d = True, OF pos ty ne fit dist, THEN conjunct2]
  have a: "load_adjustments_from_sqlite 999 scenario_zero_db scenario_dates scenario_assets
       True True True ''all'' = Some (Inl ZeroDivisionError)"
    by (subst (asm) if_P [OF zero])
  from split_ratio_zero [where inc_s = True and db = scenario_db and inc_m = True
      and inc_d = True, OF pos ty ne fit dist, THEN conjunct2]
  have b: "\<exists>res. load_adjustments_from_sqlite 999 scenario_db scenario_dates scenario_assets
       True True True ''all'' = Some (Inr res)"
    by (subst (asm) if_not_P [OF none])
  from pos ne dist a b show ?thesis by (intro conjI)
qed

section \<open>Splits scale prices and volumes, mergers and dividends prices only\<close>

text \<open>A sid that \<open>get_loc\<close> finds occurs once on the asset axis.\<close>

lemma get_loc_count:
  assumes "get_loc assets sid = Inr ix"
  shows "count (mset assets) sid = 1"
proof -
  from assms have one: "filter (\<lambda>i. assets ! i = sid) [0..<length assets] = [ix]"
    by (auto simp: get_loc_def split: list.splits)
  have "filter (\<lambda>x. x = sid) assets = filter (\<lambda>x. x = sid) (map (nth assets) [0..<length assets])"
    by (simp only: map_nth)
  also have "\<dots> = map (nth assets) (filter (\<lambda>i. assets ! i = sid) [0..<length assets])"
    by (simp add: filter_map comp_def)
  finally have "length (filter (\<lambda>x. x = sid) assets) = 1"
    by (simp add: one)
  moreover have "count (mset assets) sid = length (filter (\<lambda>x. x = sid) assets)"
    by (induction assets) auto
  ultimately show ?thesis by simp
qed

lemma distinct_filter_once:
  assumes "\<And>a. a \<in> set xs \<Longrightarrow> P a \<Longrightarrow> count (mset xs) a = 1"
  shows "distinct (filter P xs)"
  unfolding distinct_count_atmost_1
proof (intro allI)
  fix a
  show "count (mset (filter P xs)) a = (if a \<in> set (filter P xs) then 1 else 0)"
  proof (cases "P a \<and> a \<in> set xs")
    case True
    with assms have "count (mset xs) a = 1" by blast
    with True show ?thesis by simp
  next
    case False
    then have "count (mset (filter P xs)) a = 0"
      by (auto simp: count_eq_zero_iff)
    with False show ?thesis by auto
  qed
qed

lemma fetch_loop_mset_from:
  assumes "fetch_loop max_in rows s e to_query [] issued0 = Some (results, issued)"
    and "distinct to_query"
  shows "mset results = mset (adj_query rows to_query s e)"
proof (cases "0 < max_in")
  case True
  from fetch_loop_chunks [OF True, of rows s e to_query "[]" issued0] assms(1)
  obtain chunks where "results = concat (map (\<lambda>t. adj_query rows t s e) chunks)"
    and "concat chunks = to_query"
    by auto
  with mset_concat_adj_query [of chunks rows s e] assms(2) show ?thesis by simp
next
  case False
  with fetch_loop_Some [OF assms(1)] have "to_query = []" by simp
  with assms(1) show ?thesis by (simp add: fetch_loop_Nil adj_query_def)
qed

lemma adj_query_fetched:
  "adj_query rows assets s e = fetched assets s e rows"
  by (auto simp: adj_query_def fetched_def in_range_def intro: filter_cong)

text \<open>
  A fetch whose records all find their column has fetched every row of the range of an
  axis asset exactly once.
\<close>

lemma fetched_mset:
  assumes f: "fetch_loop max_in rows s e
                (filter (\<lambda>a. a \<in> (if b then fst ` set (in_range s e rows) else {})) assets)
                [] issued0 = Some (results, issued)"
    and ok: "\<forall>(sid, ratio, eff)\<in>set results. \<exists>ix. get_loc assets sid = Inr ix"
  shows "mset results = (if b then mset (fetched assets s e rows) else {#})"
proof (cases b)
  case False
  with f show ?thesis by (simp add: fetch_loop_Nil)
next
  case True
  let ?cs = "filter (\<lambda>a. a \<in> fst ` set (in_range s e rows)) assets"
  from f True have f': "fetch_loop max_in rows s e ?cs [] issued0 = Some (results, issued)"
    by simp
  have res: "set results = set (adj_query rows ?cs s e)"
    by (rule fetch_loop_set_from [OF f'])
  have "distinct ?cs"
  proof (rule distinct_filter_once)
    fix a assume a: "a \<in> set assets" "a \<in> fst ` set (in_range s e rows)"
    then obtain ratio eff where r: "(a, ratio, eff) \<in> set (in_range s e rows)"
      by force
    with a have "(a, ratio, eff) \<in> set (adj_query rows ?cs s e)"
      by (auto simp: adj_query_def in_range_def)
    with res ok obtain ix where "get_loc assets a = Inr ix" by fastforce
    then show "count (mset assets) a = 1" by (rule get_loc_count)
  qed
  from fetch_loop_mset_from [OF f' this] have "mset results = mset (adj_query rows ?cs s e)" .
  also have "adj_query rows ?cs s e = fetched assets s e rows"
    unfolding adj_query_candidates by (rule adj_query_fetched)
  finally show ?thesis using True by simp
qed

lemma adjustments_fetches:
  assumes "adjustments max_in db split_sids merger_sids dividends_sids s e assets =
             Some ((ss, ms, ds), issued)"
  shows "\<exists>i1 i2.
           fetch_loop max_in (splits db) s e (filter (\<lambda>a. a \<in> split_sids) assets) [] [] =
             Some (ss, i1) \<and>
           fetch_loop max_in (mergers db) s e (filter (\<lambda>a. a \<in> merger_sids) assets) [] i1 =
             Some (ms, i2) \<and>
           fetch_loop max_in (dividends db) s e (filter (\<lambda>a. a \<in> dividends_sids) assets) [] i2 =
             Some (ds, issued)"
  using assms by (auto simp: adjustments_def split: option.splits)

lemma sids_as_range:
  "(if b then get_sids_from_table db tn s e else {}) =
   (if b then fst ` set (in_range s e (table_rows db tn)) else {})"
  by (simp add: get_sids_in_range)

text \<open>
  A load that returns schedules has assembled them from lists that hold every row of the
  date range of an axis asset exactly once, for each included table.
\<close>

lemma load_Inr_mset:
  assumes load: "load_adjustments_from_sqlite max_in db dates assets inc_s inc_m inc_d ty =
                   Some (Inr res)"
  shows "\<exists>ss ms ds.
           assemble dates assets (hd dates) (ty = ''all'' \<or> ty = ''price'')
             (ty = ''all'' \<or> ty = ''volume'') ss ms ds = Inr res \<and>
           mset ss = (if inc_s then mset (fetched assets (hd dates) (last dates) (splits db))
                      else {#}) \<and>
           mset ms = (if inc_m \<and> (ty = ''all'' \<or> ty = ''price'')
                      then mset (fetched assets (hd dates) (last dates) (mergers db)) else {#}) \<and>
           mset ds = (if inc_d \<and> (ty = ''all'' \<or> ty = ''price'')
                      then mset (fetched assets (hd dates) (last dates) (dividends db)) else {#})"
proof -
  let ?s = "hd dates" and ?e = "last dates"
  let ?p = "ty = ''all'' \<or> ty = ''price''" and ?v = "ty = ''all'' \<or> ty = ''volume''"
  note pre = load_preconditions [OF load]
  from load [unfolded load_unfold [OF pre]] obtain ss ms ds issued where
    a: "adjustments max_in db
             (if inc_s then get_split_sids db ?s ?e else {})
             (if inc_m \<and> ?p then get_merger_sids db ?s ?e else {})
             (if inc_d \<and> ?p then get_dividend_sids db ?s ?e else {})
             ?s ?e assets = Some ((ss, ms, ds), issued)"
    and r: "assemble dates assets ?s ?p ?v ss ms ds = Inr res"
    by (auto split: option.splits)
  from adjustments_fetches [OF a] obtain i1 i2 where
    f1: "fetch_loop max_in (splits db) ?s ?e
           (filter (\<lambda>a. a \<in> (if inc_s then get_split_sids db ?s ?e else {})) assets) [] [] =
         Some (ss, i1)"
    and f2: "fetch_loop max_in (mergers db) ?s ?e
           (filter (\<lambda>a. a \<in> (if inc_m \<and> ?p then get_merger_sids db ?s ?e else {})) assets) [] i1 =
         Some (ms, i2)"
    and f3: "fetch_loop max_in (dividends db) ?s ?e
           (filter (\<lambda>a. a \<in> (if inc_d \<and> ?p then get_dividend_sids db ?s ?e else {})) assets) [] i2 =
         Some (ds, issued)"
    by blast
  note A = assemble_Inr [OF r]
  have found: "\<forall>(sid, ratio, eff)\<in>set xs. \<exists>ix. get_loc assets sid = Inr ix"
    if sub: "set xs \<subseteq> set (ss @ ms @ ds)"
      and rng: "set xs = set (adj_query rows cs ?s ?e)" for xs rows cs
  proof (intro ballI)
    fix x assume x: "x \<in> set xs"
    obtain sid ratio eff where xe: "x = (sid, ratio, eff)" by (cases x)
    from x rng xe have "?s \<le> eff" by (simp add: set_adj_query)
    moreover from x sub xe have "(sid, ratio, eff) \<in> set (ss @ ms @ ds)" by blast
    ultimately have "\<exists>ix. get_loc assets sid = Inr ix" using A(5) by fastforce
    then show "case x of (sid, ratio, eff) \<Rightarrow> \<exists>ix. get_loc assets sid = Inr ix"
      by (simp add: xe)
  qed
  have m1: "mset ss = (if inc_s then mset (fetched assets ?s ?e (splits db)) else {#})"
  proof -
    from f1 have f: "fetch_loop max_in (splits db) ?s ?e
           (filter (\<lambda>a. a \<in> (if inc_s then fst ` set (in_range ?s ?e (splits db)) else {})) assets)
           [] [] = Some (ss, i1)"
      unfolding get_split_sids_def sids_as_range by (simp only: table_rows.simps)
    have "set ss \<subseteq> set (ss @ ms @ ds)" by simp
    from fetched_mset [OF f found [OF this fetch_loop_set_from [OF f]]] show ?thesis .
  qed
  have m2: "mset ms = (if inc_m \<and> ?p then mset (fetched assets ?s ?e (mergers db)) else {#})"
  proof -
    from f2 have f: "fetch_loop max_in (mergers db) ?s ?e
           (filter (\<lambda>a. a \<in> (if inc_m \<and> ?p then fst ` set (in_range ?s ?e (mergers db)) else {}))
              assets) [] i1 = Some (ms, i2)"
      unfolding get_merger_sids_def sids_as_range by (simp only: table_rows.simps)
    have "set ms \<subseteq> set (ss @ ms @ ds)" by auto
    from fetched_mset [OF f found [OF this fetch_loop_set_from [OF f]]] show ?thesis .
  qed
  have m3: "mset ds = (if inc_d \<and> ?p then mset (fetched assets ?s ?e (dividends db)) else {#})"
  proof -
    from f3 have f: "fetch_loop max_in (dividends db) ?s ?e
           (filter (\<lambda>a. a \<in> (if inc_d \<and> ?p then fst ` set (in_range ?s ?e (dividends db)) else {}))
              assets) [] i2 = Some (ds, issued)"
      unfolding get_dividend_sids_def sids_as_range by (simp only: table_rows.simps)
    have "set ds \<subseteq> set (ss @ ms @ ds)" by auto
    from fetched_mset [OF f found [OF this fetch_loop_set_from [OF f]]] show ?thesis .
  qed
  from r m1 m2 m3 show ?thesis by blast
qed

text \<open>
  Claim C4. When a load returns, there are lists \<open>ss\<close>, \<open>ms\<close> and \<open>ds\<close> of the split,
  merger and dividend records it fetched, each holding every row of its table that lies in
  the date range and belongs to an asset of the axis exactly once (and nothing when the
  table is not included), such that at every row the price bucket, if prices were
  requested, holds one correction with the record's ratio for every split record, then
  one for every merger record and then one for every dividend record; and the volume
  bucket, if volumes were requested, holds one correction with the inverse of the ratio
  for every split record, at the row and the column of the price correction of the same
  record, and nothing for mergers and dividends.
\<close>

theorem split_price_volume:
  assumes "load_adjustments_from_sqlite max_in db dates assets inc_s inc_m inc_d ty =
             Some (Inr res)"
  shows "\<exists>ss ms ds.
           mset ss = (if inc_s then mset (fetched assets (hd dates) (last dates) (splits db))
                      else {#}) \<and>
           mset ms = (if inc_m \<and> (ty = ''all'' \<or> ty = ''price'')
                      then mset (fetched assets (hd dates) (last dates) (mergers db)) else {#}) \<and>
           mset ds = (if inc_d \<and> (ty = ''all'' \<or> ty = ''price'')
                      then mset (fetched assets (hd dates) (last dates) (dividends db)) else {#}) \<and>
           res ''price'' =
             (if ty = ''all'' \<or> ty = ''price''
              then Some (\<lambda>row. bucket (corrections_at dates assets (hd dates) (\<lambda>r. r) ss row @
                                        corrections_at dates assets (hd dates) (\<lambda>r. r) ms row @
                                        corrections_at dates assets (hd dates) (\<lambda>r. r) ds row))
              else None) \<and>
           res ''volume'' =
             (if ty = ''all'' \<or> ty = ''volume''
              then Some (\<lambda>row. bucket (corrections_at dates assets (hd dates) (\<lambda>r. 1 / r) ss row))
              else None)"
proof -
  from load_Inr_mset [OF assms] obtain ss ms ds where
    asm: "assemble dates assets (hd dates) (ty = ''all'' \<or> ty = ''price'')
            (ty = ''all'' \<or> ty = ''volume'') ss ms ds = Inr res"
    and m: "mset ss = (if inc_s then mset (fetched assets (hd dates) (last dates) (splits db))
                      else {#})"
      "mset ms = (if inc_m \<and> (ty = ''all'' \<or> ty = ''price'')
                      then mset (fetched assets (hd dates) (last dates) (mergers db)) else {#})"
      "mset ds = (if inc_d \<and> (ty = ''all'' \<or> ty = ''price'')
                      then mset (fetched assets (hd dates) (last dates) (dividends db)) else {#})"
    by blast
  from assemble_Inr(1,2) [OF asm] m show ?thesis
    unfolding corrections_at_append by blast
qed

lemma scenario_mixed_load:
  "0 < max_in \<Longrightarrow>
   load_adjustments_from_sqlite max_in scenario_mixed_db scenario_dates scenario_assets
       True True True ''all'' = Some (Inr scenario_mixed_result)"
proof -
  assume pos: "0 < max_in"
  have sids: "get_split_sids scenario_mixed_db 0 259200 = {101}"
    "get_merger_sids scenario_mixed_db 0 259200 = {101}"
    "get_dividend_sids scenario_mixed_db 0 259200 = {101}"
    by (simp_all add: get_split_sids_def get_merger_sids_def get_dividend_sids_def
        get_sids_from_table_def scenario_mixed_db_def)
  have fetched: "adjustments max_in scenario_mixed_db {101} {101} {101} 0 259200 scenario_assets =
      Some (([(101, 2, 86400)], [(101, 1 / 2, 86400)], [(101, 98 / 100, 172800)]),
            [[101], [101], [101]])"
    using pos by (simp add: adjustments_def scenario_assets_def scenario_mixed_db_def
        fetch_loop_single adj_query_def)
  have assembled: "assemble scenario_dates scenario_assets 0 True True
      [(101, 2, 86400)] [(101, 1 / 2, 86400)] [(101, 98 / 100, 172800)] =
      Inr scenario_mixed_result"
    by (simp add: assemble_def scenario_prepopulate split_step_def price_step_def c_int_def
        lookup_dt_def lookup_asset_def get_loc_def scenario_assets_def append_adj_def
        scenario_mixed_result_def)
  have ends: "hd scenario_dates = 0" "last scenario_dates = 259200"
    by (simp_all add: scenario_dates_def)
  have pre: "''all'' = ''price'' \<or> ''all'' = ''volume'' \<or> ''all'' = ''all''"
    "scenario_dates \<noteq> []" "c_int (hd scenario_dates) = Inr (hd scenario_dates)"
    "c_int (last scenario_dates) = Inr (last scenario_dates)"
    by (simp_all add: scenario_dates_def c_int_def)
  have t: "(True \<and> (''all'' = ''all'' \<or> ''all'' = ''price'')) = True"
    "(''all'' = ''all'' \<or> ''all'' = ''price'') = True"
    "(''all'' = ''all'' \<or> ''all'' = ''volume'') = True"
    by simp_all
  show ?thesis
    by (simp only: load_unfold [OF pre] t simp_thms if_True ends sids fetched option.case
        prod.case assembled)
qed

theorem split_price_volume_witness:
  "load_adjustments_from_sqlite 999 scenario_mixed_db scenario_dates scenario_assets
       True True True ''all'' = Some (Inr scenario_mixed_result) \<and>
   fetched scenario_assets (hd scenario_dates) (last scenario_dates) (splits scenario_mixed_db) =
     [(101, 2, 86400)] \<and>
   fetched scenario_assets (hd scenario_dates) (last scenario_dates) (mergers scenario_mixed_db) =
     [(101, 1 / 2, 86400)] \<and>
   fetched scenario_assets (hd scenario_dates) (last scenario_dates) (dividends scenario_mixed_db) =
     [(101, 98 / 100, 172800)] \<and>
   (\<exists>ss ms ds.
      mset ss = mset (fetched scenario_assets (hd scenario_dates) (last scenario_dates)
                        (splits scenario_mixed_db)) \<and>
      mset ms = mset (fetched scenario_assets (hd scenario_dates) (last scenario_dates)
                        (mergers scenario_mixed_db)) \<and>
      mset ds = mset (fetched scenario_assets (hd scenario_dates) (last scenario_dates)
                        (dividends scenario_mixed_db)) \<and>
      scenario_mixed_result ''price'' =
        Some (\<lambda>row. bucket (corrections_at scenario_dates scenario_assets (hd scenario_dates)
                               (\<lambda>r. r) ss row @
                             corrections_at scenario_dates scenario_assets (hd scenario_dates)
                               (\<lambda>r. r) ms row @
                             corrections_at scenario_dates scenario_assets (hd scenario_dates)
                               (\<lambda>r. r) ds row)) \<and>
      scenario_mixed_result ''volume'' =
        Some (\<lambda>row. bucket (corrections_at scenario_dates scenario_assets (hd scenario_dates)
                               (\<lambda>r. 1 / r) ss row)))"
proof -
  have l: "load_adjustments_from_sqlite 999 scenario_mixed_db scenario_dates scenario_assets
       True True True ''all'' = Some (Inr scenario_mixed_result)"
    by (simp add: scenario_mixed_load)
  have f: "fetched scenario_assets (hd scenario_dates) (last scenario_dates)
        (splits scenario_mixed_db) = [(101, 2, 86400)]"
    "fetched scenario_assets (hd scenario_dates) (last scenario_dates)
        (mergers scenario_mixed_db) = [(101, 1 / 2, 86400)]"
    "fetched scenario_assets (hd scenario_dates) (last scenario_dates)
        (dividends scenario_mixed_db) = [(101, 98 / 100, 172800)]"
    by (simp_all add: fetched_def in_range_def scenario_mixed_db_def scenario_dates_def
        scenario_assets_def)
  have t: "''all'' = ''all'' \<or> ''all'' = ''price''" "''all'' = ''all'' \<or> ''all'' = ''volume''"
    by simp_all
  from split_price_volume [OF l] have "\<exists>ss ms ds.
      mset ss = mset (fetched scenario_assets (hd scenario_dates) (last scenario_dates)
                        (splits scenario_mixed_db)) \<and>
      mset ms = mset (fetched scenario_assets (hd scenario_dates) (last scenario_dates)
                        (mergers scenario_mixed_db)) \<and>
      mset ds = mset (fetched scenario_assets (hd scenario_dates) (last scenario_dates)
                        (dividends scenario_mixed_db)) \<and>
      scenario_mixed_result ''price'' =
        Some (\<lambda>row. bucket (corrections_at scenario_dates scenario_assets (hd scenario_dates)
                               (\<lambda>r. r) ss row @
                             corrections_at scenario_dates scenario_assets (hd scenario_dates)
                               (\<lambda>r. r) ms row @
                             corrections_at scenario_dates scenario_assets (hd scenario_dates)
                               (\<lambda>r. r) ds row)) \<and>
      scenario_mixed_result ''volume'' =
        Some (\<lambda>row. bucket (corrections_at scenario_dates scenario_assets (hd scenario_dates)
                               (\<lambda>r. 1 / r) ss row))"
    by (simp only: t if_True simp_thms)
  with l f show ?thesis by (intro conjI)
qed

section \<open>Every valid adjustment type returns its keys\<close>

lemma dom_two_keys:
  assumes "dom r \<subseteq> {k1, k2}"
  shows "dom r = (if r k1 \<noteq> None then {k1} else {}) \<union> (if r k2 \<noteq> None then {k2} else {})"
  using assms by (auto simp: dom_def)

text \<open>A well-formed request that does not divide by zero returns exactly the keys of its
  adjustment type.\<close>

lemma load_returns_keys:
  assumes pos: "0 < max_in" and valid: "ty = ''price'' \<or> ty = ''volume'' \<or> ty = ''all''"
    and ne: "dates \<noteq> []"
    and fit: "\<forall>d\<in>set dates. c_int d = Inr d" and dist: "distinct assets"
    and nz: "\<not> ((ty = ''all'' \<or> ty = ''volume'') \<and> inc_s \<and>
               (\<exists>sid eff. (sid, 0, eff) \<in> set (splits db) \<and> sid \<in> set assets \<and>
                          hd dates \<le> eff \<and> eff \<le> last dates))"
  shows "\<exists>r. load_adjustments_from_sqlite max_in db dates assets inc_s inc_m inc_d ty =
               Some (Inr r) \<and>
             dom r = (if ty = ''all'' then {''price'', ''volume''} else {ty})"
proof -
  from load_outcome [OF pos valid ne fit dist, of inc_s db inc_m inc_d]
  have "\<exists>r. load_adjustments_from_sqlite max_in db dates assets inc_s inc_m inc_d ty =
      Some (Inr r)"
    by (subst (asm) if_not_P [OF nz])
  then obtain r where
    l: "load_adjustments_from_sqlite max_in db dates assets inc_s inc_m inc_d ty = Some (Inr r)"
    by blast
  note k = load_keys [OF l]
  from k have k1: "(r ''price'' \<noteq> None) = (ty = ''price'' \<or> ty = ''all'')"
    by (rule conjunct1)
  from k have k2: "(r ''volume'' \<noteq> None) = (ty = ''volume'' \<or> ty = ''all'')"
    by (rule conjunct2 [THEN conjunct1])
  from k have "dom r \<subseteq> {''price'', ''volume''}"
    by (rule conjunct2 [THEN conjunct2])
  from dom_two_keys [OF this] have d: "dom r =
      (if ty = ''price'' \<or> ty = ''all'' then {''price''} else {}) \<union>
      (if ty = ''volume'' \<or> ty = ''all'' then {''volume''} else {})"
    by (simp only: k1 k2)
  have "dom r = (if ty = ''all'' then {''price'', ''volume''} else {ty})"
  proof (cases "ty = ''price''")
    case True
    with d show ?thesis by simp
  next
    case np: False
    show ?thesis
    proof (cases "ty = ''volume''")
      case True
      with d show ?thesis by simp
    next
      case False
      with np valid have "ty = ''all''" by blast
      with d show ?thesis by auto
    qed
  qed
  with l show ?thesis by blast
qed

text \<open>
  Claim C6. With the adjustment type \<open>volume\<close> the outcome of the load is the same for
  any two stores with the same splits table and for any values of the merger and dividend
  flags, so merger and dividend records contribute nothing. A load that returns has the
  key \<open>price\<close> exactly when the adjustment type is \<open>price\<close> or \<open>all\<close>, the key \<open>volume\<close>
  exactly when it is \<open>volume\<close> or \<open>all\<close>, and no other key, so that the type \<open>volume\<close>
  gives exactly the key \<open>volume\<close>. And the load does return, with exactly the keys of its
  type, for each of the three valid types on every well-formed request (a positive query
  limit, a non-empty axis of dates that fit a C \<open>int\<close>, distinct assets) that does not
  divide by a zero split ratio; for any other type it raises \<open>ValueError\<close>.
\<close>

theorem adjustment_type_keys:
  "(load_adjustments_from_sqlite max_in db dates assets inc_s inc_m inc_d ty = Some (Inr res) \<longrightarrow>
      (res ''price'' \<noteq> None \<longleftrightarrow> ty = ''price'' \<or> ty = ''all'') \<and>
      (res ''volume'' \<noteq> None \<longleftrightarrow> ty = ''volume'' \<or> ty = ''all'') \<and>
      dom res \<subseteq> {''price'', ''volume''} \<and>
      (ty = ''volume'' \<longrightarrow> dom res = {''volume''})) \<and>
   (splits db' = splits db \<longrightarrow>
      load_adjustments_from_sqlite max_in db' dates assets inc_s inc_m' inc_d' ''volume'' =
      load_adjustments_from_sqlite max_in db dates assets inc_s inc_m inc_d ''volume'') \<and>
   (0 < max_in \<and> (ty = ''price'' \<or> ty = ''volume'' \<or> ty = ''all'') \<and> dates \<noteq> [] \<and>
    (\<forall>d\<in>set dates. c_int d = Inr d) \<and> distinct assets \<and>
    \<not> ((ty = ''all'' \<or> ty = ''volume'') \<and> inc_s \<and>
       (\<exists>sid eff. (sid, 0, eff) \<in> set (splits db) \<and> sid \<in> set assets \<and>
                  hd dates \<le> eff \<and> eff \<le> last dates)) \<longrightarrow>
      (\<exists>r. load_adjustments_from_sqlite max_in db dates assets inc_s inc_m inc_d ty =
             Some (Inr r) \<and>
           dom r = (if ty = ''all'' then {''price'', ''volume''} else {ty}))) \<and>
   (\<not> (ty = ''price'' \<or> ty = ''volume'' \<or> ty = ''all'') \<longrightarrow>
      load_adjustments_from_sqlite max_in db dates assets inc_s inc_m inc_d ty =
        Some (Inl ValueError))"
proof -
  have keys: "(res ''price'' \<noteq> None \<longleftrightarrow> ty = ''price'' \<or> ty = ''all'') \<and>
      (res ''volume'' \<noteq> None \<longleftrightarrow> ty = ''volume'' \<or> ty = ''all'') \<and>
      dom res \<subseteq> {''price'', ''volume''} \<and>
      (ty = ''volume'' \<longrightarrow> dom res = {''volume''})"
    if l: "load_adjustments_from_sqlite max_in db dates assets inc_s inc_m inc_d ty = Some (Inr res)"
  proof -
    note k = load_keys [OF l]
    have k1: "res ''price'' \<noteq> None \<longleftrightarrow> ty = ''price'' \<or> ty = ''all''"
      using k by (rule conjunct1)
    have k2: "res ''volume'' \<noteq> None \<longleftrightarrow> ty = ''volume'' \<or> ty = ''all''"
      using k by (rule conjunct2 [THEN conjunct1])
    have k3: "dom res \<subseteq> {''price'', ''volume''}"
      using k by (rule conjunct2 [THEN conjunct2])
    have k4: "ty = ''volume'' \<longrightarrow> dom res = {''volume''}"
    proof (rule impI)
      assume v: "ty = ''volume''"
      from k v have p: "res ''price'' = None" by simp
      from k v have q: "res ''volume'' \<noteq> None" by simp
      from k have d: "dom res \<subseteq> {''price'', ''volume''}" by (rule conjunct2 [THEN conjunct2])
      show "dom res = {''volume''}"
      proof (rule equalityI)
        show "dom res \<subseteq> {''volume''}"
        proof
          fix x assume x: "x \<in> dom res"
          with d have "x = ''price'' \<or> x = ''volume''" by blast
          moreover from x p have "x \<noteq> ''price''" by (auto simp: dom_def)
          ultimately show "x \<in> {''volume''}" by simp
        qed
        from q show "{''volume''} \<subseteq> dom res" by (simp add: dom_def)
      qed
    qed
    from k1 k2 k3 k4 show ?thesis by (intro conjI)
  qed
  have a: "load_adjustments_from_sqlite max_in db dates assets inc_s inc_m inc_d ty = Some (Inr res) \<longrightarrow>
      (res ''price'' \<noteq> None \<longleftrightarrow> ty = ''price'' \<or> ty = ''all'') \<and>
      (res ''volume'' \<noteq> None \<longleftrightarrow> ty = ''volume'' \<or> ty = ''all'') \<and>
      dom res \<subseteq> {''price'', ''volume''} \<and>
      (ty = ''volume'' \<longrightarrow> dom res = {''volume''})"
    by (rule impI) (rule keys)
  have b: "splits db' = splits db \<longrightarrow>
      load_adjustments_from_sqlite max_in db' dates assets inc_s inc_m' inc_d' ''volume'' =
      load_adjustments_from_sqlite max_in db dates assets inc_s inc_m inc_d ''volume''"
    by (rule impI) (rule load_volume_splits_only)
  have c: "0 < max_in \<and> (ty = ''price'' \<or> ty = ''volume'' \<or> ty = ''all'') \<and> dates \<noteq> [] \<and>
    (\<forall>d\<in>set dates. c_int d = Inr d) \<and> distinct assets \<and>
    \<not> ((ty = ''all'' \<or> ty = ''volume'') \<and> inc_s \<and>
       (\<exists>sid eff. (sid, 0, eff) \<in> set (splits db) \<and> sid \<in> set assets \<and>
                  hd dates \<le> eff \<and> eff \<le> last dates)) \<longrightarrow>
      (\<exists>r. load_adjustments_from_sqlite max_in db dates assets inc_s inc_m inc_d ty =
             Some (Inr r) \<and>
           dom r = (if ty = ''all'' then {''price'', ''volume''} else {ty}))"
  proof (rule impI, elim conjE)
    assume "0 < max_in" "ty = ''price'' \<or> ty = ''volume'' \<or> ty = ''all''" "dates \<noteq> []"
      "\<forall>d\<in>set dates. c_int d = Inr d" "distinct assets"
      "\<not> ((ty = ''all'' \<or> ty = ''volume'') \<and> inc_s \<and>
         (\<exists>sid eff. (sid, 0, eff) \<in> set (splits db) \<and> sid \<in> set assets \<and>
                    hd dates \<le> eff \<and> eff \<le> last dates))"
    then show "\<exists>r. load_adjustments_from_sqlite max_in db dates assets inc_s inc_m inc_d ty =
             Some (Inr r) \<and>
           dom r = (if ty = ''all'' then {''price'', ''volume''} else {ty})"
      by (rule load_returns_keys)
  qed
  have d: "\<not> (ty = ''price'' \<or> ty = ''volume'' \<or> ty = ''all'') \<longrightarrow>
      load_adjustments_from_sqlite max_in db dates assets inc_s inc_m inc_d ty =
        Some (Inl ValueError)"
    by (rule impI) (rule load_invalid_type)
  from a b c d show ?thesis by (intro conjI)
qed

lemma scenario_dividend_price:
  "load_adjustments_from_sqlite 999 scenario_dividend_db scenario_dates scenario_assets
       True True True ''price'' =
     Some (Inr [''price'' \<mapsto> [2 \<mapsto> [\<lparr>first_row = 0, last_row = 2, first_col = 0,
                                          last_col = 0, val = 98 / 100\<rparr>]]])"
proof -
  have sids: "get_split_sids scenario_dividend_db 0 259200 = {}"
    "get_merger_sids scenario_dividend_db 0 259200 = {}"
    "get_dividend_sids scenario_dividend_db 0 259200 = {101}"
    by (simp_all add: get_split_sids_def get_merger_sids_def get_dividend_sids_def
        get_sids_from_table_def scenario_dividend_db_def)
  have fetched: "adjustments 999 scenario_dividend_db {} {} {101} 0 259200 scenario_assets =
      Some (([], [], [(101, 98 / 100, 172800)]), [[101]])"
    by (simp add: adjustments_def scenario_assets_def scenario_dividend_db_def
        fetch_loop_single fetch_loop_Nil adj_query_def)
  have assembled: "assemble scenario_dates scenario_assets 0 True False
      [] [] [(101, 98 / 100, 172800)] =
      Inr [''price'' \<mapsto> [2 \<mapsto> [\<lparr>first_row = 0, last_row = 2, first_col = 0,
                                   last_col = 0, val = 98 / 100\<rparr>]]]"
    by (simp add: assemble_def scenario_prepopulate price_step_def c_int_def
        lookup_dt_def lookup_asset_def get_loc_def scenario_assets_def append_adj_def)
  have ends: "hd scenario_dates = 0" "last scenario_dates = 259200"
    by (simp_all add: scenario_dates_def)
  have pre: "''price'' = ''price'' \<or> ''price'' = ''volume'' \<or> ''price'' = ''all''"
    "scenario_dates \<noteq> []" "c_int (hd scenario_dates) = Inr (hd scenario_dates)"
    "c_int (last scenario_dates) = Inr (last scenario_dates)"
    by (simp_all add: scenario_dates_def c_int_def)
  have t: "(''price'' = ''all'' \<or> ''price'' = ''price'') = True"
    "(''price'' = ''all'' \<or> ''price'' = ''volume'') = False"
    by simp_all
  show ?thesis
    by (simp only: load_unfold [OF pre] t simp_thms if_True ends sids fetched option.case
        prod.case assembled)
qed

theorem adjustment_type_keys_witness:
  "load_adjustments_from_sqlite 999 scenario_dividend_db scenario_dates scenario_assets
       True True True ''price'' =
     Some (Inr [''price'' \<mapsto> [2 \<mapsto> [\<lparr>first_row = 0, last_row = 2, first_col = 0,
                                          last_col = 0, val = 98 / 100\<rparr>]]]) \<and>
   dom [''price'' \<mapsto> [2 \<mapsto> [\<lparr>first_row = 0, last_row = 2, first_col = 0,
                                last_col = 0, val = 98 / (100::real)\<rparr>]]] = {''price''} \<and>
   load_adjustments_from_sqlite 999 scenario_db scenario_dates scenario_assets
       True True True ''all'' = Some (Inr scenario_result) \<and>
   dom scenario_result = {''price'', ''volume''} \<and>
   load_adjustments_from_sqlite 999 scenario_dividend_db scenario_dates scenario_assets
       True True True ''volume'' = Some (Inr [''volume'' \<mapsto> Map.empty]) \<and>
   dom [''volume'' \<mapsto> (Map.empty :: schedule)] = {''volume''} \<and>
   load_adjustments_from_sqlite 999 \<lparr>splits = [], mergers = [], dividends = []\<rparr>
       scenario_dates scenario_assets True False False ''volume'' =
   load_adjustments_from_sqlite 999 scenario_dividend_db scenario_dates scenario_assets
       True True True ''volume'' \<and>
   load_adjustments_from_sqlite 999 scenario_db scenario_dates scenario_assets
       True True True ''both'' = Some (Inl ValueError)"
proof -
  have pos: "(0::nat) < 999" by simp
  have ne: "scenario_dates \<noteq> []" by (simp add: scenario_dates_def)
  have fit: "\<forall>d\<in>set scenario_dates. c_int d = Inr d"
    by (simp add: scenario_dates_def c_int_def)
  have dist: "distinct scenario_assets" by (simp add: scenario_assets_def)
  have s: "splits \<lparr>splits = [], mergers = [], dividends = []\<rparr> = splits scenario_dividend_db"
    by (simp add: scenario_dividend_db_def)
  have nz_div: "\<not> ((ty = ''all'' \<or> ty = ''volume'') \<and> True \<and>
       (\<exists>sid eff. (sid, 0, eff) \<in> set (splits scenario_dividend_db) \<and> sid \<in> set scenario_assets \<and>
                  hd scenario_dates \<le> eff \<and> eff \<le> last scenario_dates))" for ty :: string
    by (simp add: scenario_dividend_db_def)
  have nz_split: "\<not> ((''all'' = ''all'' \<or> ''all'' = ''volume'') \<and> True \<and>
       (\<exists>sid eff. (sid, 0, eff) \<in> set (splits scenario_db) \<and> sid \<in> set scenario_assets \<and>
                  hd scenario_dates \<le> eff \<and> eff \<le> last scenario_dates))"
    by (simp add: scenario_db_def)
  have vp: "''price'' = ''price'' \<or> ''price'' = ''volume'' \<or> ''price'' = ''all''"
    and va: "''all'' = ''price'' \<or> ''all'' = ''volume'' \<or> ''all'' = ''all''"
    and vv: "''volume'' = ''price'' \<or> ''volume'' = ''volume'' \<or> ''volume'' = ''all''"
    and nb: "\<not> (''both'' = ''price'' \<or> ''both'' = ''volume'' \<or> ''both'' = ''all'')"
    by simp_all
  note returns = adjustment_type_keys [THEN conjunct2, THEN conjunct2, THEN conjunct1, rule_format]
  from returns [where ty = "''price''" and db = scenario_dividend_db and inc_s = True,
      OF conjI [OF pos conjI [OF vp conjI [OF ne conjI [OF fit conjI [OF dist nz_div]]]]],
      of True True]
  have p: "dom [''price'' \<mapsto> [2 \<mapsto> [\<lparr>first_row = 0, last_row = 2, first_col = 0,
                                last_col = 0, val = 98 / (100::real)\<rparr>]]] = {''price''}"
    by (simp add: scenario_dividend_price)
  from returns [where ty = "''all''" and db = scenario_db and inc_s = True,
      OF conjI [OF pos conjI [OF va conjI [OF ne conjI [OF fit conjI [OF dist nz_split]]]]],
      of True True]
  have a: "dom scenario_result = {''price'', ''volume''}"
    by (simp add: scenario_returns)
  from returns [where ty = "''volume''" and db = scenario_dividend_db and inc_s = True,
      OF conjI [OF pos conjI [OF vv conjI [OF ne conjI [OF fit conjI [OF dist nz_div]]]]],
      of True True]
  have v: "dom [''volume'' \<mapsto> (Map.empty :: schedule)] = {''volume''}"
    by (simp add: scenario_dividend_volume)
  have n: "load_adjustments_from_sqlite 999 \<lparr>splits = [], mergers = [], dividends = []\<rparr>
       scenario_dates scenario_assets True False False ''volume'' =
     load_adjustments_from_sqlite 999 scenario_dividend_db scenario_dates scenario_assets
       True True True ''volume''"
    by (rule adjustment_type_keys [THEN conjunct2, THEN conjunct1, rule_format, OF s])
  have e: "load_adjustments_from_sqlite 999 scenario_db scenario_dates scenario_assets
       True True True ''both'' = Some (Inl ValueError)"
    by (rule adjustment_type_keys [THEN conjunct2, THEN conjunct2, THEN conjunct2, rule_format,
          OF nb])
  from scenario_dividend_price p scenario_returns [OF pos] a scenario_dividend_volume v n e
  show ?thesis by (intro conjI)
qed

end
